theory Spec2Isabelle
  imports Main "HOL-Library.Word" "HOL-Library.Multiset"
begin

unbundle bit_operations_syntax

section \<open>JavaScript values used by the dashboard\<close>

text \<open>
  The two source variants (\<^verbatim>\<open>src/unnamed/part_000\<close> and
  \<^verbatim>\<open>src/multivers_x_governance_dashboard_react.jsx\<close>) share the hex and bech32
  helpers verbatim and differ in the aggregation loop and in the ranking comparator.

  A JavaScript string is a sequence of UTF-16 code units. Input strings (topics,
  addresses) are modelled as \<^typ>\<open>string\<close>, one \<^typ>\<open>char\<close> per code unit, which covers
  the code units U+0000 to U+00FF. The result of \<^verbatim>\<open>String.fromCharCode\<close> is kept as
  a list of code units (\<^typ>\<open>nat\<close>), because a negative \<^verbatim>\<open>parseInt\<close> result wraps
  to a code unit above U+00FF. \<^verbatim>\<open>undefined\<close> is \<^const>\<open>None\<close>.

  A JavaScript Number that can reach the bit helpers is \<^verbatim>\<open>NaN\<close> or an integer.
\<close>

datatype number = NaN | Num int

text \<open>\<^verbatim>\<open>ToInt32\<close>: the operand conversion of every bitwise operator.\<close>

definition toInt32 :: "int \<Rightarrow> int" where
  "toInt32 x = signed_take_bit 31 x"

fun numToInt32 :: "number \<Rightarrow> int" where
  "numToInt32 NaN = 0"
| "numToInt32 (Num n) = toInt32 n"

text \<open>\<^verbatim>\<open>a << n\<close>, \<^verbatim>\<open>a >> n\<close>: the shift count is taken modulo 32.\<close>

definition shl :: "int \<Rightarrow> int \<Rightarrow> int" where
  "shl a n = toInt32 (push_bit (nat (n mod 32)) (toInt32 a))"

definition sar :: "int \<Rightarrow> int \<Rightarrow> int" where
  "sar a n = drop_bit (nat (n mod 32)) (toInt32 a)"

definition band :: "int \<Rightarrow> int \<Rightarrow> int" where
  "band a b = toInt32 a AND toInt32 b"

definition bor :: "int \<Rightarrow> int \<Rightarrow> int" where
  "bor a b = toInt32 a OR toInt32 b"

definition bxor :: "int \<Rightarrow> int \<Rightarrow> int" where
  "bxor a b = toInt32 a XOR toInt32 b"

subsection \<open>Strings\<close>

text \<open>Line terminators (not matched by \<^verbatim>\<open>.\<close>) and white space (skipped by
  \<^verbatim>\<open>parseInt\<close> and \<^verbatim>\<open>BigInt\<close>) among the code units up to U+00FF.\<close>

definition isLineTerminator :: "char \<Rightarrow> bool" where
  "isLineTerminator c = (of_char c \<in> {10, 13 :: nat})"

definition isWhiteSpace :: "char \<Rightarrow> bool" where
  "isWhiteSpace c = (of_char c \<in> {9, 10, 11, 12, 13, 32, 160 :: nat})"

definition hexDigit :: "char \<Rightarrow> int option" where
  "hexDigit c =
     (let n = (of_char c :: nat) in
      if 48 \<le> n \<and> n \<le> 57 then Some (int n - 48)
      else if 97 \<le> n \<and> n \<le> 102 then Some (int n - 87)
      else if 65 \<le> n \<and> n \<le> 70 then Some (int n - 55)
      else None)"

definition isHexDigit :: "char \<Rightarrow> bool" where
  "isHexDigit c = (hexDigit c \<noteq> None)"

text \<open>The mathematical value of a run of hex digits, most significant first.\<close>

definition hexValue :: "string \<Rightarrow> int" where
  "hexValue ds = foldl (\<lambda>a c. 16 * a + the (hexDigit c)) 0 ds"

text \<open>
  \<^verbatim>\<open>parseInt(s, 16)\<close>: skip leading white space, take an optional sign, skip an
  optional \<^verbatim>\<open>0x\<close>/\<^verbatim>\<open>0X\<close>, read the longest run of hex digits; no digit gives
  \<^verbatim>\<open>NaN\<close>. (Minus zero is \<^term>\<open>Num 0\<close>: every consumer treats both zeros alike.)
\<close>

definition stripSign :: "string \<Rightarrow> int \<times> string" where
  "stripSign s =
     (case s of
        [] \<Rightarrow> (1, [])
      | c # r \<Rightarrow> if c = CHR ''-'' then (-1, r) else if c = CHR ''+'' then (1, r) else (1, s))"

definition stripHexPrefix :: "string \<Rightarrow> string" where
  "stripHexPrefix s =
     (case s of
        a # b # r \<Rightarrow> if a = CHR ''0'' \<and> (b = CHR ''x'' \<or> b = CHR ''X'') then r else s
      | _ \<Rightarrow> s)"

definition parseInt16 :: "string \<Rightarrow> number" where
  "parseInt16 s =
     (let (sign, s1) = stripSign (dropWhile isWhiteSpace s);
          z = takeWhile isHexDigit (stripHexPrefix s1)
      in if z = [] then NaN else Num (sign * hexValue z))"

text \<open>
  \<^verbatim>\<open>hex.match(/.{1,2}/g) ?? []\<close>: scanning left to right, two characters that are
  not line terminators form a chunk, a single one before a line terminator or at the
  end forms a chunk of its own, line terminators are skipped. No match at all gives
  \<^verbatim>\<open>null\<close>, which \<^verbatim>\<open>?.map(...) ?? []\<close> turns into the empty array.
\<close>

fun matchChunks :: "string \<Rightarrow> string list" where
  "matchChunks [] = []"
| "matchChunks [a] = (if isLineTerminator a then [] else [[a]])"
| "matchChunks (a # b # r) =
     (if isLineTerminator a then matchChunks (b # r)
      else if isLineTerminator b then [a] # matchChunks r
      else [a, b] # matchChunks r)"

text \<open>The byte-decoding step written inline in \<^verbatim>\<open>hexToAscii\<close> and
  \<^verbatim>\<open>hexToBech32Erd\<close>:
  \<^verbatim>\<open>hex.match(/.{1,2}/g)?.map((b) => parseInt(b, 16)) ?? []\<close>.\<close>

definition hexToBytes :: "string \<Rightarrow> number list" where
  "hexToBytes hex = map parseInt16 (matchChunks hex)"

section \<open>HexCodec\<close>

text \<open>\<^verbatim>\<open>String.fromCharCode\<close> applies \<^verbatim>\<open>ToUint16\<close> to each argument.\<close>

fun toUint16 :: "number \<Rightarrow> nat" where
  "toUint16 NaN = 0"
| "toUint16 (Num n) = nat (n mod 65536)"

text \<open>\<^verbatim>\<open>.replace(/\u0000+$/g, '')\<close>: drop the trailing run of NUL code units.\<close>

definition stripTrailingNul :: "nat list \<Rightarrow> nat list" where
  "stripTrailingNul cs = rev (dropWhile (\<lambda>c. c = 0) (rev cs))"

text \<open>
  \<^verbatim>\<open>hexToAscii\<close>. Its \<^verbatim>\<open>try\<close> block contains no operation that throws on a
  string argument (the engine's limit on the number of spread arguments is outside the
  model), so the \<^verbatim>\<open>catch\<close> branch has no counterpart.
\<close>

definition hexToAscii :: "string option \<Rightarrow> nat list" where
  "hexToAscii hex =
     (case hex of
        None \<Rightarrow> []
      | Some h \<Rightarrow> if h = [] then [] else stripTrailingNul (map toUint16 (hexToBytes h)))"

text \<open>
  \<^verbatim>\<open>BigInt('0x' + h)\<close> accepts hex digits followed by optional white space and throws
  a SyntaxError on anything else; the \<^verbatim>\<open>catch\<close> turns the error into \<^verbatim>\<open>0n\<close>.
\<close>

datatype error = SyntaxError | TypeError

definition bigIntOfHexLiteral :: "string \<Rightarrow> error + int" where
  "bigIntOfHexLiteral h =
     (let ds = rev (dropWhile isWhiteSpace (rev h))
      in if ds \<noteq> [] \<and> list_all isHexDigit ds then Inr (hexValue ds) else Inl SyntaxError)"

definition hexToBigInt :: "string option \<Rightarrow> int" where
  "hexToBigInt hex =
     (case hex of
        None \<Rightarrow> 0
      | Some x \<Rightarrow>
          if x = [] then 0
          else let h = (if length x mod 2 = 1 then CHR ''0'' # x else x)
               in (case bigIntOfHexLiteral h of Inl _ \<Rightarrow> 0 | Inr v \<Rightarrow> v))"

section \<open>OptionDecoder\<close>

datatype vote_option = Yes | No | Abstain | Veto | Unknown

text \<open>
  \<^verbatim>\<open>toLowerCase\<close> on the code units that \<^verbatim>\<open>hexToAscii\<close> can produce: a chunk has
  at most two characters, so its value lies in \<open>-15..255\<close> and the code unit in
  U+0000..U+00FF or U+FFF1..U+FFFF; the latter have no lower-case mapping.
\<close>

definition lowerUnit :: "nat \<Rightarrow> nat" where
  "lowerUnit c =
     (if 65 \<le> c \<and> c \<le> 90 then c + 32
      else if 192 \<le> c \<and> c \<le> 222 \<and> c \<noteq> 215 then c + 32
      else c)"

definition toLowerCase :: "nat list \<Rightarrow> nat list" where
  "toLowerCase s = map lowerUnit s"

definition lit :: "string \<Rightarrow> nat list" where
  "lit s = map of_char s"

definition decodeOption :: "string option \<Rightarrow> vote_option" where
  "decodeOption hex =
     (let s = toLowerCase (hexToAscii hex) in
      if s = lit ''yes'' then Yes
      else if s = lit ''no'' then No
      else if s = lit ''abstain'' then Abstain
      else if s = lit ''veto'' \<or> s = lit ''ncv'' \<or> s = lit ''veto_power'' then Veto
      else Unknown)"

section \<open>Bech32Codec\<close>

definition GENERATORS :: "int list" where
  "GENERATORS = [0x3b6a57b2, 0x26508e6d, 0x1ea119fa, 0x3d4233dd, 0x2a1462b3]"

text \<open>One round of the \<^verbatim>\<open>for (const v of values)\<close> loop of \<^verbatim>\<open>bech32Polymod\<close>.\<close>

definition polymodStep :: "int \<Rightarrow> int \<Rightarrow> int" where
  "polymodStep chk v =
     (let b = sar chk 25;
          chk1 = bxor (shl (band chk 0x1ffffff) 5) v
      in foldl (\<lambda>c i. if band (sar b (int i)) 1 \<noteq> 0 then bxor c (GENERATORS ! i) else c)
           chk1 [0..<5])"

definition bech32Polymod :: "int list \<Rightarrow> int" where
  "bech32Polymod values = foldl polymodStep 1 values"

definition charCode :: "char \<Rightarrow> int" where
  "charCode c = of_char c"

definition bech32HrpExpand :: "string \<Rightarrow> int list" where
  "bech32HrpExpand hrp =
     map (\<lambda>c. sar (charCode c) 5) hrp @ [0] @ map (\<lambda>c. band (charCode c) 31) hrp"

definition bech32CreateChecksum :: "string \<Rightarrow> int list \<Rightarrow> int list" where
  "bech32CreateChecksum hrp data =
     (let values = bech32HrpExpand hrp @ data @ [0, 0, 0, 0, 0, 0];
          md = bxor (bech32Polymod values) 1
      in map (\<lambda>p. band (sar md (5 * (5 - p))) 31) [0, 1, 2, 3, 4, 5])"

definition BECH32_ALPHABET :: string where
  "BECH32_ALPHABET = ''qpzry9x8gf2tvdw0s3jn54khce6mua7l''"

text \<open>\<^verbatim>\<open>out += BECH32_ALPHABET[d]\<close>: an index outside the string reads
  \<^verbatim>\<open>undefined\<close>, which \<^verbatim>\<open>+=\<close> appends as the text "undefined".\<close>

definition alphabetAt :: "int \<Rightarrow> string" where
  "alphabetAt d = (if 0 \<le> d \<and> d < 32 then [BECH32_ALPHABET ! nat d] else ''undefined'')"

text \<open>
  \<^verbatim>\<open>bech32Encode\<close>. Its argument is what \<^verbatim>\<open>convertBits\<close> returned: an array or
  \<^verbatim>\<open>null\<close> (\<^const>\<open>None\<close>). \<^verbatim>\<open>data.concat(...)\<close> on \<^verbatim>\<open>null\<close> throws a
  TypeError before the checksum is computed.
\<close>

definition bech32Encode :: "string \<Rightarrow> int list option \<Rightarrow> error + string" where
  "bech32Encode hrp data =
     (case data of
        None \<Rightarrow> Inl TypeError
      | Some d \<Rightarrow>
          let combined = d @ bech32CreateChecksum hrp d
          in Inr (hrp @ ''1'' @ concat (map alphabetAt combined)))"

text \<open>
  The inner loop of \<^verbatim>\<open>convertBits\<close>,
  \<^verbatim>\<open>while (bits >= to) { bits -= to; ret.push((acc >> bits) & maxv) }\<close>.
  For \<open>to \<le> 0\<close> it never exits; not returning is the value \<^const>\<open>None\<close>.
\<close>

partial_function (option) emitGroups ::
    "int \<Rightarrow> int \<Rightarrow> int \<Rightarrow> int \<Rightarrow> int list \<Rightarrow> (int \<times> int list) option" where
  "emitGroups acc to maxv bits ret =
     (if bits \<ge> to
      then emitGroups acc to maxv (bits - to) (ret @ [band (sar acc (bits - to)) maxv])
      else Some (bits, ret))"

declare emitGroups.simps [code]

text \<open>\<^verbatim>\<open>value < 0\<close> is false for \<^verbatim>\<open>NaN\<close>.\<close>

fun isNegative :: "number \<Rightarrow> bool" where
  "isNegative NaN = False"
| "isNegative (Num n) = (n < 0)"

text \<open>
  The \<^verbatim>\<open>for (const value of data)\<close> loop on the state \<open>(acc, bits, ret)\<close>. The result
  is \<^const>\<open>None\<close> when the loop does not return, \<^term>\<open>Some None\<close> at the early
  \<^verbatim>\<open>return null\<close>, and the final state otherwise.
\<close>

fun feedValues ::
    "int \<Rightarrow> int \<Rightarrow> int \<Rightarrow> int \<times> int \<times> int list \<Rightarrow> number list
       \<Rightarrow> (int \<times> int \<times> int list) option option" where
  "feedValues from to maxv st [] = Some (Some st)"
| "feedValues from to maxv (acc, bits, ret) (v # rest) =
     (if isNegative v \<or> sar (numToInt32 v) from \<noteq> 0 then Some None
      else let acc' = bor (shl acc from) (numToInt32 v)
           in (case emitGroups acc' to maxv (bits + from) ret of
                 None \<Rightarrow> None
               | Some (bits', ret') \<Rightarrow> feedValues from to maxv (acc', bits', ret') rest))"

text \<open>\<^verbatim>\<open>convertBits(data, from, to, pad)\<close>: \<^const>\<open>None\<close> when the call does not
  return, \<^term>\<open>Some None\<close> for \<^verbatim>\<open>null\<close>, \<^term>\<open>Some (Some ret)\<close> for the array.\<close>

definition convertBits :: "number list \<Rightarrow> int \<Rightarrow> int \<Rightarrow> bool \<Rightarrow> int list option option" where
  "convertBits data from to pad =
     (let maxv = shl 1 to - 1 in
      case feedValues from to maxv (0, 0, []) data of
        None \<Rightarrow> None
      | Some None \<Rightarrow> Some None
      | Some (Some (acc, bits, ret)) \<Rightarrow>
          if pad then
            (if bits \<noteq> 0 then Some (Some (ret @ [band (shl acc (to - bits)) maxv]))
             else Some (Some ret))
          else if bits \<ge> from \<or> band (shl acc (to - bits)) maxv \<noteq> 0 then Some None
          else Some (Some ret))"

text \<open>
  \<^verbatim>\<open>hexToBech32Erd\<close>. The outer \<^const>\<open>None\<close> is "does not return"; inside,
  \<^const>\<open>None\<close> is \<^verbatim>\<open>undefined\<close>. The \<^verbatim>\<open>catch\<close> turns the TypeError of
  \<^const>\<open>bech32Encode\<close> into \<^verbatim>\<open>undefined\<close>.
\<close>

definition hexToBech32Erd :: "string option \<Rightarrow> string option option" where
  "hexToBech32Erd hex32 =
     (case hex32 of
        None \<Rightarrow> Some None
      | Some h \<Rightarrow>
          if h = [] then Some None
          else let bytes = hexToBytes h in
            if length bytes \<noteq> 32 then Some None
            else (case convertBits bytes 8 5 True of
                    None \<Rightarrow> None
                  | Some five \<Rightarrow>
                      (case bech32Encode ''erd'' five of
                         Inl _ \<Rightarrow> Some None
                       | Inr s \<Rightarrow> Some (Some s))))"

section \<open>AggregationEngine\<close>

text \<open>
  \<^verbatim>\<open>hit._source\<close>. \<^verbatim>\<open>address\<close> and \<^verbatim>\<open>topics\<close> may be absent; \<^verbatim>\<open>timestamp\<close>
  is never read by the aggregation.
\<close>

record source =
  "identifier" :: string
  address :: "string option"
  topics :: "string list option"

text \<open>
  The accumulators. The fields \<^verbatim>\<open>count\<close> and \<^verbatim>\<open>power\<close> carry a prefix here:
  \<open>c_\<close> in \<^verbatim>\<open>byOption[option]\<close>, \<open>v_\<close> in the per-voter entries. Powers and stakes
  are BigInt, counts are Numbers that only ever grow by one.
\<close>

record category_totals =
  c_count :: nat
  c_power :: int

record voter_acc =
  stake :: int
  v_power :: int
  v_count :: nat

text \<open>
  A \<^verbatim>\<open>Map\<close> keeps its entries in insertion order; \<^verbatim>\<open>set\<close> on a present key
  replaces the value in place, on a new key it appends.
\<close>

fun mapSet :: "'k \<Rightarrow> 'v \<Rightarrow> ('k \<times> 'v) list \<Rightarrow> ('k \<times> 'v) list" where
  "mapSet k v [] = [(k, v)]"
| "mapSet k v ((k', v') # m) = (if k' = k then (k, v) # m else (k', v') # mapSet k v m)"

definition mapGet :: "('k \<times> 'v) list \<Rightarrow> 'k \<Rightarrow> 'v option" where
  "mapGet m k = map_of m k"

text \<open>
  \<^verbatim>\<open>DELEGATION_LABELS[src] ?? 'others'\<close> is a property read on an object literal: a
  listed address gives its label, a property name inherited from
  \<^verbatim>\<open>Object.prototype\<close> gives that inherited member (not a string, and not nullish),
  anything else gives "others".
\<close>

datatype label = Label string | Inherited string

definition DELEGATION_LABELS :: "(string \<times> string) list" where
  "DELEGATION_LABELS =
     [(''erd1qqqqqqqqqqqqqpgqxwakt2g7u9atsnr03gqcgmhcv38pt7mkd94q6shuwt'', ''Legacy Delegation''),
      (''erd1qqqqqqqqqqqqqpgq6uzdzy54wnesfnlaycxwymrn9texlnmyah0ssrfvk6'', ''xoxno''),
      (''erd1qqqqqqqqqqqqqpgq4gzfcw7kmkjy8zsf04ce6dl0auhtzjx078sslvrf4e'', ''hatom'')]"

definition objectPrototypeMembers :: "string list" where
  "objectPrototypeMembers =
     [''constructor'', ''__proto__'', ''hasOwnProperty'', ''isPrototypeOf'',
      ''propertyIsEnumerable'', ''toLocaleString'', ''toString'', ''valueOf'',
      ''__defineGetter__'', ''__defineSetter__'', ''__lookupGetter__'', ''__lookupSetter__'']"

definition delegationLabel :: "string option \<Rightarrow> label" where
  "delegationLabel addr =
     (let src = (case addr of None \<Rightarrow> ''others'' | Some a \<Rightarrow> a) in
      case map_of DELEGATION_LABELS src of
        Some l \<Rightarrow> Label l
      | None \<Rightarrow> if src \<in> set objectPrototypeMembers then Inherited src else Label ''others'')"

record stats_state =
  byOption :: "vote_option \<Rightarrow> category_totals"
  perCategoryAddresses :: "vote_option \<Rightarrow> (string option \<times> voter_acc) list"
  totalPower :: int
  delegationBreakdown :: "(label \<times> int) list"
  delegationCountBreakdown :: "(label \<times> nat) list"

definition initialStats :: stats_state where
  "initialStats =
     \<lparr> byOption = (\<lambda>_. \<lparr> c_count = 0, c_power = 0 \<rparr>),
       perCategoryAddresses = (\<lambda>_. []),
       totalPower = 0,
       delegationBreakdown = [],
       delegationCountBreakdown = [] \<rparr>"

text \<open>\<^verbatim>\<open>t[i]\<close> is \<^verbatim>\<open>undefined\<close> past the end of the array.\<close>

definition topic :: "string list \<Rightarrow> nat \<Rightarrow> string option" where
  "topic t i = (if i < length t then Some (t ! i) else None)"

text \<open>\<^verbatim>\<open>byOption[option].count += 1; byOption[option].power += votePower;
  totalPower += votePower\<close>\<close>

definition addToTotals :: "vote_option \<Rightarrow> int \<Rightarrow> stats_state \<Rightarrow> stats_state" where
  "addToTotals opt votePower s =
     s\<lparr> byOption := (byOption s)(opt :=
           \<lparr> c_count = c_count (byOption s opt) + 1,
             c_power = c_power (byOption s opt) + votePower \<rparr>),
        totalPower := totalPower s + votePower \<rparr>"

text \<open>\<^verbatim>\<open>const prev = m.get(voterAddr) ?? { stake: 0n, power: 0n, count: 0 };
  m.set(voterAddr, { stake: prev.stake + userStake, power: prev.power + votePower,
  count: prev.count + 1 })\<close>\<close>

definition addToVoter ::
    "vote_option \<Rightarrow> string option \<Rightarrow> int \<Rightarrow> int \<Rightarrow> stats_state \<Rightarrow> stats_state" where
  "addToVoter opt voterAddr userStake votePower s =
     (let m = perCategoryAddresses s opt;
          prev = (case mapGet m voterAddr of
                    None \<Rightarrow> \<lparr> stake = 0, v_power = 0, v_count = 0 \<rparr>
                  | Some a \<Rightarrow> a)
      in s\<lparr> perCategoryAddresses := (perCategoryAddresses s)(opt :=
               mapSet voterAddr
                 \<lparr> stake = stake prev + userStake,
                   v_power = v_power prev + votePower,
                   v_count = v_count prev + 1 \<rparr> m) \<rparr>)"

definition addToDelegation :: "label \<Rightarrow> int \<Rightarrow> stats_state \<Rightarrow> stats_state" where
  "addToDelegation l votePower s =
     s\<lparr> delegationBreakdown :=
          mapSet l ((case mapGet (delegationBreakdown s) l of None \<Rightarrow> 0 | Some p \<Rightarrow> p) + votePower)
            (delegationBreakdown s) \<rparr>"

definition addToDelegationCount :: "label \<Rightarrow> stats_state \<Rightarrow> stats_state" where
  "addToDelegationCount l s =
     s\<lparr> delegationCountBreakdown :=
          mapSet l ((case mapGet (delegationCountBreakdown s) l of None \<Rightarrow> 0 | Some c \<Rightarrow> c) + 1)
            (delegationCountBreakdown s) \<rparr>"

text \<open>
  One round of \<^verbatim>\<open>for (const hit of rawHits)\<close> in \<^verbatim>\<open>src/unnamed/part_000\<close>, which
  keeps per-voter entries for both event kinds. \<^const>\<open>None\<close> is "does not return".
\<close>

definition processHit :: "stats_state \<Rightarrow> source \<Rightarrow> stats_state option" where
  "processHit st s =
     (let t = (case topics s of None \<Rightarrow> [] | Some ts \<Rightarrow> ts) in
      if t = [] then Some st
      else if identifier s = ''vote'' then
        (let opt = decodeOption (topic t 1);
             voterAddr = address s;
             userStake = hexToBigInt (topic t 2);
             votePower = hexToBigInt (topic t 3)
         in Some (addToVoter opt voterAddr userStake votePower (addToTotals opt votePower st)))
      else if identifier s = ''delegateVote'' then
        (let opt = decodeOption (topic t 1);
             voterHex = topic t 2
         in case hexToBech32Erd voterHex of
              None \<Rightarrow> None
            | Some r \<Rightarrow>
                let voterAddr = (case r of None \<Rightarrow> voterHex | Some a \<Rightarrow> Some a);
                    userStake = hexToBigInt (topic t 3);
                    votePower = hexToBigInt (topic t 4);
                    l = delegationLabel (address s)
                in Some (addToDelegationCount l (addToDelegation l votePower
                     (addToVoter opt voterAddr userStake votePower
                        (addToTotals opt votePower st)))))
      else Some st)"

text \<open>
  The same round in \<^verbatim>\<open>src/multivers_x_governance_dashboard_react.jsx\<close>: a
  \<^verbatim>\<open>vote\<close> event only feeds the totals, and there is no count breakdown.
\<close>

definition processHitJsx :: "stats_state \<Rightarrow> source \<Rightarrow> stats_state option" where
  "processHitJsx st s =
     (let t = (case topics s of None \<Rightarrow> [] | Some ts \<Rightarrow> ts) in
      if t = [] then Some st
      else if identifier s = ''vote'' then
        (let opt = decodeOption (topic t 1);
             votePower = hexToBigInt (topic t 3)
         in Some (addToTotals opt votePower st))
      else if identifier s = ''delegateVote'' then
        (let opt = decodeOption (topic t 1);
             voterHex = topic t 2
         in case hexToBech32Erd voterHex of
              None \<Rightarrow> None
            | Some r \<Rightarrow>
                let voterAddr = (case r of None \<Rightarrow> voterHex | Some a \<Rightarrow> Some a);
                    userStake = hexToBigInt (topic t 3);
                    votePower = hexToBigInt (topic t 4);
                    l = delegationLabel (address s)
                in Some (addToDelegation l votePower
                     (addToVoter opt voterAddr userStake votePower
                        (addToTotals opt votePower st))))
      else Some st)"

text \<open>The loop over \<^verbatim>\<open>rawHits\<close>, for either round function.\<close>

fun forHits ::
    "(stats_state \<Rightarrow> source \<Rightarrow> stats_state option) \<Rightarrow> stats_state \<Rightarrow> source list
       \<Rightarrow> stats_state option" where
  "forHits f st [] = Some st"
| "forHits f st (h # hs) = (case f st h of None \<Rightarrow> None | Some st' \<Rightarrow> forHits f st' hs)"

definition stats :: "source list \<Rightarrow> stats_state option" where
  "stats rawHits = forHits processHit initialStats rawHits"

definition statsJsx :: "source list \<Rightarrow> stats_state option" where
  "statsJsx rawHits = forHits processHitJsx initialStats rawHits"

section \<open>Ranker\<close>

text \<open>
  \<^verbatim>\<open>Array.prototype.sort\<close> with a comparator that is a consistent ordering returns
  the stable sorting: \<open>a\<close> stays in front of \<open>b\<close> unless the comparator is positive.
\<close>

fun insertSorted :: "('a \<Rightarrow> 'a \<Rightarrow> int) \<Rightarrow> 'a \<Rightarrow> 'a list \<Rightarrow> 'a list" where
  "insertSorted cmp x [] = [x]"
| "insertSorted cmp x (y # ys) =
     (if cmp x y \<le> 0 then x # y # ys else y # insertSorted cmp x ys)"

definition arraySort :: "('a \<Rightarrow> 'a \<Rightarrow> int) \<Rightarrow> 'a list \<Rightarrow> 'a list" where
  "arraySort cmp xs = foldr (insertSorted cmp) xs []"

text \<open>The rows \<^verbatim>\<open>{ address: addr, stake: v.stake, power: v.power, count: v.count }\<close>.\<close>

record row = voter_acc +
  r_address :: "string option"

definition toRow :: "string option \<times> voter_acc \<Rightarrow> row" where
  "toRow e = \<lparr> stake = stake (snd e), v_power = v_power (snd e), v_count = v_count (snd e),
               r_address = fst e \<rparr>"

text \<open>\<^verbatim>\<open>Number(x)\<close> of a BigInt keeps the sign of \<open>x\<close>, which is all \<^verbatim>\<open>sort\<close> reads;
  the comparators return the BigInt difference itself.\<close>

definition byPower :: "row \<Rightarrow> row \<Rightarrow> int" where
  "byPower a b = v_power b - v_power a"

definition byStakeThenPower :: "row \<Rightarrow> row \<Rightarrow> int" where
  "byStakeThenPower a b =
     (if stake a = stake b then v_power b - v_power a else stake b - stake a)"

text \<open>\<^verbatim>\<open>topPerCategory\<close> of \<^verbatim>\<open>part_000\<close> (by power) and of the \<^verbatim>\<open>.jsx\<close> variant
  (by stake, then power), as functions of the category's \<^verbatim>\<open>Map\<close>.\<close>

definition topPerCategory :: "(string option \<times> voter_acc) list \<Rightarrow> row list" where
  "topPerCategory m = take 50 (arraySort byPower (map toRow m))"

definition topPerCategoryJsx :: "(string option \<times> voter_acc) list \<Rightarrow> row list" where
  "topPerCategoryJsx m = take 50 (arraySort byStakeThenPower (map toRow m))"

section \<open>What one event contributes, and what the accumulators hold\<close>

text \<open>
  The decoding half of a loop round, separated from the updates: an event is skipped, or
  it is a \<^verbatim>\<open>vote\<close> or a \<^verbatim>\<open>delegateVote\<close> with its option, voter address,
  stake and power (and the delegation label). \<^const>\<open>hexToBech32Erd\<close> always returns
  (\<open>hexToBech32Erd_returns\<close> below), and \<open>processHit_decode\<close> shows that a round is
  exactly the decoding followed by the updates.
\<close>

datatype decoded =
    Skipped
  | VoteEvent vote_option "string option" int int
  | DelegateVoteEvent vote_option "string option" int int label

definition resolveVoter :: "string option \<Rightarrow> string option" where
  "resolveVoter voterHex =
     (case hexToBech32Erd voterHex of Some (Some a) \<Rightarrow> Some a | _ \<Rightarrow> voterHex)"

definition decodeHit :: "source \<Rightarrow> decoded" where
  "decodeHit s =
     (let t = (case topics s of None \<Rightarrow> [] | Some ts \<Rightarrow> ts) in
      if t = [] then Skipped
      else if identifier s = ''vote'' then
        VoteEvent (decodeOption (topic t 1)) (address s)
          (hexToBigInt (topic t 2)) (hexToBigInt (topic t 3))
      else if identifier s = ''delegateVote'' then
        DelegateVoteEvent (decodeOption (topic t 1)) (resolveVoter (topic t 2))
          (hexToBigInt (topic t 3)) (hexToBigInt (topic t 4)) (delegationLabel (address s))
      else Skipped)"

fun applyDecoded :: "decoded \<Rightarrow> stats_state \<Rightarrow> stats_state" where
  "applyDecoded Skipped st = st"
| "applyDecoded (VoteEvent opt a us vp) st = addToVoter opt a us vp (addToTotals opt vp st)"
| "applyDecoded (DelegateVoteEvent opt a us vp l) st =
     addToDelegationCount l (addToDelegation l vp
       (addToVoter opt a us vp (addToTotals opt vp st)))"

fun applyDecodedJsx :: "decoded \<Rightarrow> stats_state \<Rightarrow> stats_state" where
  "applyDecodedJsx Skipped st = st"
| "applyDecodedJsx (VoteEvent opt a us vp) st = addToTotals opt vp st"
| "applyDecodedJsx (DelegateVoteEvent opt a us vp l) st =
     addToDelegation l vp (addToVoter opt a us vp (addToTotals opt vp st))"

text \<open>
  The content of the accumulators, without the insertion order of the \<^verbatim>\<open>Map\<close>s:
  the category totals, the total power, the per-voter entries of each category, and the
  delegation totals (power and count) per label.
\<close>

type_synonym contents =
  "(vote_option \<Rightarrow> category_totals) \<times> int
     \<times> (vote_option \<Rightarrow> string option \<Rightarrow> voter_acc option)
     \<times> (label \<Rightarrow> int option) \<times> (label \<Rightarrow> nat option)"

definition contentsOf :: "stats_state \<Rightarrow> contents" where
  "contentsOf st =
     (byOption st, totalPower st, (\<lambda>opt. map_of (perCategoryAddresses st opt)),
      map_of (delegationBreakdown st), map_of (delegationCountBreakdown st))"

text \<open>The same updates on the contents.\<close>

definition bumpTotals ::
    "vote_option \<Rightarrow> int \<Rightarrow> (vote_option \<Rightarrow> category_totals) \<Rightarrow> (vote_option \<Rightarrow> category_totals)" where
  "bumpTotals opt vp b =
     b(opt := \<lparr> c_count = c_count (b opt) + 1, c_power = c_power (b opt) + vp \<rparr>)"

definition bumpEntry :: "int \<Rightarrow> int \<Rightarrow> voter_acc option \<Rightarrow> voter_acc" where
  "bumpEntry us vp e =
     (case e of
        None \<Rightarrow> \<lparr> stake = us, v_power = vp, v_count = 1 \<rparr>
      | Some a \<Rightarrow> \<lparr> stake = stake a + us, v_power = v_power a + vp, v_count = v_count a + 1 \<rparr>)"

definition bumpVoter ::
    "vote_option \<Rightarrow> string option \<Rightarrow> int \<Rightarrow> int
       \<Rightarrow> (vote_option \<Rightarrow> string option \<Rightarrow> voter_acc option)
       \<Rightarrow> (vote_option \<Rightarrow> string option \<Rightarrow> voter_acc option)" where
  "bumpVoter opt a us vp p = p(opt := (p opt)(a \<mapsto> bumpEntry us vp (p opt a)))"

definition bumpDelegation :: "label \<Rightarrow> int \<Rightarrow> (label \<Rightarrow> int option) \<Rightarrow> (label \<Rightarrow> int option)" where
  "bumpDelegation l vp d = d(l \<mapsto> (case d l of None \<Rightarrow> 0 | Some x \<Rightarrow> x) + vp)"

definition bumpDelegationCount :: "label \<Rightarrow> (label \<Rightarrow> nat option) \<Rightarrow> (label \<Rightarrow> nat option)" where
  "bumpDelegationCount l c = c(l \<mapsto> (case c l of None \<Rightarrow> 0 | Some n \<Rightarrow> n) + 1)"

fun contribute :: "decoded \<Rightarrow> contents \<Rightarrow> contents" where
  "contribute Skipped v = v"
| "contribute (VoteEvent opt a us vp) (b, t, p, d, c) =
     (bumpTotals opt vp b, t + vp, bumpVoter opt a us vp p, d, c)"
| "contribute (DelegateVoteEvent opt a us vp l) (b, t, p, d, c) =
     (bumpTotals opt vp b, t + vp, bumpVoter opt a us vp p,
      bumpDelegation l vp d, bumpDelegationCount l c)"

fun contributeJsx :: "decoded \<Rightarrow> contents \<Rightarrow> contents" where
  "contributeJsx Skipped v = v"
| "contributeJsx (VoteEvent opt a us vp) (b, t, p, d, c) = (bumpTotals opt vp b, t + vp, p, d, c)"
| "contributeJsx (DelegateVoteEvent opt a us vp l) (b, t, p, d, c) =
     (bumpTotals opt vp b, t + vp, bumpVoter opt a us vp p, bumpDelegation l vp d, c)"

text \<open>The sum of the per-voter powers of one category.\<close>

definition voterPowerSum :: "(string option \<times> voter_acc) list \<Rightarrow> int" where
  "voterPowerSum m = sum_list (map (\<lambda>e. v_power (snd e)) m)"

text \<open>The sum of the powers of the five categories.\<close>

definition powerOfCategories :: "stats_state \<Rightarrow> int" where
  "powerOfCategories st =
     c_power (byOption st Yes) + c_power (byOption st No) + c_power (byOption st Abstain)
       + c_power (byOption st Veto) + c_power (byOption st Unknown)"


text \<open>Closure: in every category the per-voter powers add up to the category's power.\<close>

definition closed :: "stats_state \<Rightarrow> bool" where
  "closed st = (\<forall>q. voterPowerSum (perCategoryAddresses st q) = c_power (byOption st q))"


text \<open>
  A \<^verbatim>\<open>vote\<close> event that the loop counts in category \<open>q\<close>, and the power that such
  events of a batch add to \<open>q\<close>. The \<^verbatim>\<open>.jsx\<close> variant keeps no per-voter entry for
  them: per-voter tracking is on for \<^verbatim>\<open>delegateVote\<close> only.
\<close>

definition directVoteIn :: "vote_option \<Rightarrow> source \<Rightarrow> bool" where
  "directVoteIn q s =
     (let t = (case topics s of None \<Rightarrow> [] | Some ts \<Rightarrow> ts)
      in t \<noteq> [] \<and> identifier s = ''vote'' \<and> decodeOption (topic t 1) = q)"

definition directVotePower :: "vote_option \<Rightarrow> source list \<Rightarrow> int" where
  "directVotePower q hs =
     sum_list (map (\<lambda>s. hexToBigInt (topic (case topics s of None \<Rightarrow> [] | Some ts \<Rightarrow> ts) 3))
       (filter (directVoteIn q) hs))"

section \<open>Reference notions for the codec claims\<close>

text \<open>Splitting into pairs from the left, the last character alone when the length is
  odd: what \<^const>\<open>matchChunks\<close> does on a string without line terminators.\<close>

fun pairsFromLeft :: "string \<Rightarrow> string list" where
  "pairsFromLeft [] = []"
| "pairsFromLeft [a] = [[a]]"
| "pairsFromLeft (a # b # r) = [a, b] # pairsFromLeft r"

text \<open>
  The byte decoding as the specification words it: an input with an invalid character
  gives the empty sequence; otherwise an odd-length input gets a zero nibble in front
  before it is split into pairs.
\<close>

definition hexToBytes_spec :: "string \<Rightarrow> number list" where
  "hexToBytes_spec hex =
     (if list_all isHexDigit hex
      then map (\<lambda>ch. Num (hexValue ch))
             (pairsFromLeft (if odd (length hex) then CHR ''0'' # hex else hex))
      else [])"

text \<open>The hex encoding of a text, two lower-case digits per character: what an event
  carries in its option topic.\<close>

definition hexChar :: "nat \<Rightarrow> char" where
  "hexChar n = ''0123456789abcdef'' ! n"

definition hexOf :: "string \<Rightarrow> string" where
  "hexOf w = concat (map (\<lambda>c. [hexChar (of_char c div 16), hexChar (of_char c mod 16)]) w)"

text \<open>
  Regrouping as the specification words it, on numbers. A value contributes its \<open>f\<close>
  bits (\<^verbatim>\<open>NaN\<close> contributes zeros); \<open>N\<close> is the concatenation of all values, \<open>B\<close> its
  width. Group \<open>j\<close> is bits \<open>B - (j+1)t\<close> up to \<open>B - jt\<close> of \<open>N\<close>; the \<open>r = B mod t\<close>
  leftover bits are, with padding, emitted left-justified and zero-filled. A negative
  value or one wider than \<open>f\<close> bits is rejected, and so is, without padding, a leftover
  that is non-zero or at least \<open>f\<close> bits wide.
\<close>

fun numValue :: "number \<Rightarrow> int" where
  "numValue NaN = 0"
| "numValue (Num n) = n"

definition concatValue :: "nat \<Rightarrow> int list \<Rightarrow> int" where
  "concatValue f vs = foldl (\<lambda>a v. a * 2 ^ f + v) 0 vs"

definition groupsOf :: "int \<Rightarrow> nat \<Rightarrow> nat \<Rightarrow> int list" where
  "groupsOf N B t = map (\<lambda>j. (N div 2 ^ (B - (j + 1) * t)) mod 2 ^ t) [0..<B div t]"

definition convertBits_spec :: "number list \<Rightarrow> nat \<Rightarrow> nat \<Rightarrow> bool \<Rightarrow> int list option" where
  "convertBits_spec data f t pad =
     (if list_ex (\<lambda>v. isNegative v \<or> 2 ^ f \<le> numValue v) data then None
      else let N = concatValue f (map numValue data);
               B = f * length data;
               r = B mod t
           in if pad
              then Some (if r \<noteq> 0 then groupsOf N B t @ [(N mod 2 ^ r) * 2 ^ (t - r)]
                         else groupsOf N B t)
              else if f \<le> r \<or> N mod 2 ^ r \<noteq> 0 then None
              else Some (groupsOf N B t))"

text \<open>The 52 groups of 32 byte values: 51 full groups of the 256 bits and the last bit,
  left-justified.\<close>

definition fiveOf :: "number list \<Rightarrow> int list" where
  "fiveOf bytes =
     groupsOf (concatValue 8 (map numValue bytes)) 256 5
       @ [(concatValue 8 (map numValue bytes) mod 2) * 16]"


text \<open>The generators that \<^const>\<open>polymodStep\<close> folds in for the top five bits \<open>b\<close> of
  the checksum register, combined.\<close>

definition genXor :: "int \<Rightarrow> int" where
  "genXor b = foldl (\<lambda>c i. if bit b i then c XOR GENERATORS ! i else c) 0 [0..<5]"

section \<open>Every call returns\<close>

text \<open>The inner loop of \<^const>\<open>convertBits\<close> runs \<open>bits div to\<close> times when \<open>to\<close> is
  positive, and each round appends one group.\<close>

lemma emitGroups_closed:
  assumes "0 < to"
  shows "0 \<le> bits \<Longrightarrow>
    emitGroups acc to maxv bits ret =
      Some (bits mod to,
            ret @ map (\<lambda>j. band (sar acc (bits - (int j + 1) * to)) maxv) [0..<nat (bits div to)])"
proof (induction "nat bits" arbitrary: bits ret rule: less_induct)
  case less
  show ?case
  proof (cases "to \<le> bits")
    case False
    with less.prems have "bits div to = 0" "bits mod to = bits"
      by simp_all
    with False show ?thesis
      by (subst emitGroups.simps) simp
  next
    case True
    let ?f = "\<lambda>b j. band (sar acc (b - (int j + 1) * to)) maxv"
    have lt: "nat (bits - to) < nat bits" using True assms by linarith
    have nn: "0 \<le> bits - to" using True by simp
    have dv: "bits div to = (bits - to) div to + 1"
      using assms by (metis add.commute diff_add_cancel div_add_self1 less_irrefl)
    have md: "(bits - to) mod to = bits mod to"
      by simp
    have k0: "0 \<le> (bits - to) div to"
      using nn assms by (simp add: pos_imp_zdiv_nonneg_iff)
    have len: "nat (bits div to) = Suc (nat ((bits - to) div to))"
      using dv k0 by linarith
    have shift: "map (?f bits) [0..<Suc n] = ?f bits 0 # map (?f (bits - to)) [0..<n]" for n
    proof -
      have "map (?f bits) [0..<Suc n] = ?f bits 0 # map (\<lambda>j. ?f bits (Suc j)) [0..<n]"
        by (simp add: upt_conv_Cons map_Suc_upt[symmetric] del: upt_Suc)
      moreover have "?f bits (Suc j) = ?f (bits - to) j" for j
        by (simp add: algebra_simps)
      ultimately show ?thesis by simp
    qed
    have "emitGroups acc to maxv bits ret =
          emitGroups acc to maxv (bits - to) (ret @ [band (sar acc (bits - to)) maxv])"
      using True by (subst emitGroups.simps) simp
    also have "\<dots> = Some ((bits - to) mod to,
        (ret @ [band (sar acc (bits - to)) maxv]) @ map (?f (bits - to)) [0..<nat ((bits - to) div to)])"
      by (rule less.hyps[OF lt nn])
    finally show ?thesis
      unfolding md len shift by simp
  qed
qed

lemma feedValues_returns:
  assumes "0 < to" "0 \<le> from"
  shows "0 \<le> bits \<Longrightarrow> \<exists>r. feedValues from to maxv (acc, bits, ret) data = Some r"
proof (induction data arbitrary: acc bits ret)
  case Nil
  show ?case by simp
next
  case (Cons v rest)
  have nn: "0 \<le> bits + from" using Cons.prems assms by simp
  have "0 \<le> (bits + from) mod to" using assms by simp
  then show ?case
    using Cons.IH by (simp add: emitGroups_closed[OF assms(1) nn] Let_def)
qed

lemma convertBits_returns:
  assumes "0 < to" "0 \<le> from"
  shows "\<exists>r. convertBits data from to pad = Some r"
proof -
  obtain r where "feedValues from to (shl 1 to - 1) (0, 0, []) data = Some r"
    using feedValues_returns[OF assms, of 0] by blast
  then show ?thesis
    by (auto simp: convertBits_def Let_def split: option.splits prod.splits)
qed

lemma hexToBech32Erd_returns: "\<exists>r. hexToBech32Erd h = Some r"
proof (cases h)
  case None
  then show ?thesis by (simp add: hexToBech32Erd_def)
next
  case (Some x)
  obtain five where f: "convertBits (hexToBytes x) 8 5 True = Some five"
    using convertBits_returns[of 5 8 "hexToBytes x" True] by auto
  show ?thesis
    unfolding hexToBech32Erd_def Some
    by (simp add: Let_def f split: sum.split)
qed

section \<open>AggregationEngine: a round is decoding followed by the updates\<close>

lemma resolveVoter_eq:
  "hexToBech32Erd h = Some r \<Longrightarrow> (case r of None \<Rightarrow> h | Some a \<Rightarrow> Some a) = resolveVoter h"
  by (simp add: resolveVoter_def split: option.splits)

lemma processHit_decode: "processHit st s = Some (applyDecoded (decodeHit s) st)"
proof -
  obtain r where r: "hexToBech32Erd (topic (case topics s of None \<Rightarrow> [] | Some ts \<Rightarrow> ts) 2) = Some r"
    using hexToBech32Erd_returns by blast
  show ?thesis
    unfolding processHit_def decodeHit_def
    by (simp add: Let_def r resolveVoter_eq[OF r])
qed

lemma processHitJsx_decode: "processHitJsx st s = Some (applyDecodedJsx (decodeHit s) st)"
proof -
  obtain r where r: "hexToBech32Erd (topic (case topics s of None \<Rightarrow> [] | Some ts \<Rightarrow> ts) 2) = Some r"
    using hexToBech32Erd_returns by blast
  show ?thesis
    unfolding processHitJsx_def decodeHit_def
    by (simp add: Let_def r resolveVoter_eq[OF r])
qed

lemma forHits_fold:
  assumes "\<And>st s. f st s = Some (g s st)"
  shows "forHits f st hs = Some (fold g hs st)"
  by (induction hs arbitrary: st) (simp_all add: assms)

lemma stats_fold: "stats hs = Some (fold (\<lambda>h. applyDecoded (decodeHit h)) hs initialStats)"
  unfolding stats_def by (rule forHits_fold) (rule processHit_decode)

lemma statsJsx_fold: "statsJsx hs = Some (fold (\<lambda>h. applyDecodedJsx (decodeHit h)) hs initialStats)"
  unfolding statsJsx_def by (rule forHits_fold) (rule processHitJsx_decode)

subsection \<open>The total power is the sum of the five category powers\<close>

lemma powerOfCategories_addToTotals:
  "powerOfCategories (addToTotals opt vp st) = powerOfCategories st + vp"
  by (cases opt) (simp_all add: powerOfCategories_def addToTotals_def)

lemma totalPower_addToTotals: "totalPower (addToTotals opt vp st) = totalPower st + vp"
  by (simp add: addToTotals_def)

lemma addToVoter_keeps [simp]:
  "byOption (addToVoter opt a us vp st) = byOption st"
  "totalPower (addToVoter opt a us vp st) = totalPower st"
  "delegationBreakdown (addToVoter opt a us vp st) = delegationBreakdown st"
  "delegationCountBreakdown (addToVoter opt a us vp st) = delegationCountBreakdown st"
  by (simp_all add: addToVoter_def Let_def)

lemma addToDelegation_keeps [simp]:
  "byOption (addToDelegation l vp st) = byOption st"
  "totalPower (addToDelegation l vp st) = totalPower st"
  "perCategoryAddresses (addToDelegation l vp st) = perCategoryAddresses st"
  "delegationCountBreakdown (addToDelegation l vp st) = delegationCountBreakdown st"
  by (simp_all add: addToDelegation_def)

lemma addToDelegationCount_keeps [simp]:
  "byOption (addToDelegationCount l st) = byOption st"
  "totalPower (addToDelegationCount l st) = totalPower st"
  "perCategoryAddresses (addToDelegationCount l st) = perCategoryAddresses st"
  "delegationBreakdown (addToDelegationCount l st) = delegationBreakdown st"
  by (simp_all add: addToDelegationCount_def)

lemma addToTotals_keeps [simp]:
  "perCategoryAddresses (addToTotals opt vp st) = perCategoryAddresses st"
  "delegationBreakdown (addToTotals opt vp st) = delegationBreakdown st"
  "delegationCountBreakdown (addToTotals opt vp st) = delegationCountBreakdown st"
  by (simp_all add: addToTotals_def)

lemma powerOfCategories_keeps [simp]:
  "powerOfCategories (addToVoter opt a us vp st) = powerOfCategories st"
  "powerOfCategories (addToDelegation l vp st) = powerOfCategories st"
  "powerOfCategories (addToDelegationCount l st) = powerOfCategories st"
  by (simp_all add: powerOfCategories_def)

lemma applyDecoded_total:
  "totalPower st = powerOfCategories st \<Longrightarrow>
   totalPower (applyDecoded d st) = powerOfCategories (applyDecoded d st)"
  by (cases d) (simp_all add: powerOfCategories_addToTotals totalPower_addToTotals)

lemma applyDecodedJsx_total:
  "totalPower st = powerOfCategories st \<Longrightarrow>
   totalPower (applyDecodedJsx d st) = powerOfCategories (applyDecodedJsx d st)"
  by (cases d) (simp_all add: powerOfCategories_addToTotals totalPower_addToTotals)

lemma fold_invariant:
  assumes "\<And>h st. h \<in> set hs \<Longrightarrow> P st \<Longrightarrow> P (g h st)"
  shows "P st \<Longrightarrow> P (fold g hs st)"
  using assms by (induction hs arbitrary: st) simp_all

lemma initial_total: "totalPower initialStats = powerOfCategories initialStats"
  by (simp add: initialStats_def powerOfCategories_def)

text \<open>
  C1. For every batch of raw events the aggregation returns, and in the summary
  \<^verbatim>\<open>totalPower\<close> is the sum of the powers of the five categories yes, no, abstain,
  veto and unknown; in both source variants.
\<close>

theorem totalPower_is_sum_of_categories:
  "(\<exists>st. stats rawHits = Some st
      \<and> totalPower st =
          c_power (byOption st Yes) + c_power (byOption st No) + c_power (byOption st Abstain)
            + c_power (byOption st Veto) + c_power (byOption st Unknown))
   \<and> (\<exists>st. statsJsx rawHits = Some st
      \<and> totalPower st =
          c_power (byOption st Yes) + c_power (byOption st No) + c_power (byOption st Abstain)
            + c_power (byOption st Veto) + c_power (byOption st Unknown))"
proof -
  let ?P = "\<lambda>st. totalPower st = powerOfCategories st"
  have "?P (fold (\<lambda>h. applyDecoded (decodeHit h)) rawHits initialStats)"
    by (rule fold_invariant[where P = ?P]) (simp_all add: applyDecoded_total initial_total)
  moreover have "?P (fold (\<lambda>h. applyDecodedJsx (decodeHit h)) rawHits initialStats)"
    by (rule fold_invariant[where P = ?P]) (simp_all add: applyDecodedJsx_total initial_total)
  ultimately show ?thesis
    by (simp add: stats_fold statsJsx_fold powerOfCategories_def)
qed

subsection \<open>Per-voter entries add up to the category total\<close>

lemma voterPowerSum_mapSet:
  "voterPowerSum (mapSet k v m) =
     voterPowerSum m - (case map_of m k of None \<Rightarrow> 0 | Some a \<Rightarrow> v_power a) + v_power v"
  by (induction m) (auto simp: voterPowerSum_def)

lemma voterPowerSum_addToVoter:
  "voterPowerSum (perCategoryAddresses (addToVoter opt a us vp st) q) =
     voterPowerSum (perCategoryAddresses st q) + (if q = opt then vp else 0)"
  by (simp add: addToVoter_def Let_def mapGet_def voterPowerSum_mapSet split: option.splits)

lemma c_power_addToTotals:
  "c_power (byOption (addToTotals opt vp st) q) =
     c_power (byOption st q) + (if q = opt then vp else 0)"
  by (simp add: addToTotals_def)

lemma closed_applyDecoded: "closed st \<Longrightarrow> closed (applyDecoded d st)"
  by (cases d) (simp_all add: closed_def voterPowerSum_addToVoter c_power_addToTotals)

lemma decodeHit_direct:
  "decodeHit h =
     (if directVoteIn q h
      then VoteEvent q (address h)
             (hexToBigInt (topic (case topics h of None \<Rightarrow> [] | Some ts \<Rightarrow> ts) 2))
             (hexToBigInt (topic (case topics h of None \<Rightarrow> [] | Some ts \<Rightarrow> ts) 3))
      else decodeHit h)"
  by (simp add: decodeHit_def directVoteIn_def Let_def)

lemma decodeHit_not_direct:
  "\<not> directVoteIn q h \<Longrightarrow> decodeHit h = VoteEvent opt a us vp \<Longrightarrow> opt \<noteq> q"
  by (auto simp: decodeHit_def directVoteIn_def Let_def split: if_splits)

text \<open>One round of the \<^verbatim>\<open>.jsx\<close> loop: the gap between the category's power and its
  per-voter powers grows by the power of a \<^verbatim>\<open>vote\<close> event counted in the category.\<close>

lemma applyDecodedJsx_gap:
  "c_power (byOption (applyDecodedJsx (decodeHit h) st) q)
     - voterPowerSum (perCategoryAddresses (applyDecodedJsx (decodeHit h) st) q)
   = c_power (byOption st q) - voterPowerSum (perCategoryAddresses st q)
     + (if directVoteIn q h
        then hexToBigInt (topic (case topics h of None \<Rightarrow> [] | Some ts \<Rightarrow> ts) 3) else 0)"
proof (cases "directVoteIn q h")
  case True
  then show ?thesis
    by (subst (1 2) decodeHit_direct[of h q]) (simp add: c_power_addToTotals)
next
  case False
  then show ?thesis
    by (cases "decodeHit h")
      (auto simp: voterPowerSum_addToVoter c_power_addToTotals dest: decodeHit_not_direct)
qed

lemma foldJsx_gap:
  "c_power (byOption (fold (\<lambda>h. applyDecodedJsx (decodeHit h)) hs st) q)
     - voterPowerSum (perCategoryAddresses (fold (\<lambda>h. applyDecodedJsx (decodeHit h)) hs st) q)
   = c_power (byOption st q) - voterPowerSum (perCategoryAddresses st q) + directVotePower q hs"
proof (induction hs arbitrary: st)
  case Nil
  show ?case by (simp add: directVotePower_def)
next
  case (Cons h hs)
  show ?case
    by (simp add: Cons.IH applyDecodedJsx_gap) (simp add: directVotePower_def)
qed

lemma directVotePower_none:
  "\<forall>h \<in> set hs. \<not> directVoteIn q h \<Longrightarrow> directVotePower q hs = 0"
  by (simp add: directVotePower_def filter_False)

lemma closed_initial: "closed initialStats"
  by (simp add: closed_def initialStats_def voterPowerSum_def)

text \<open>
  C2. In \<^verbatim>\<open>part_000\<close> per-voter tracking is on for both event kinds, and for every
  batch and every category the per-voter powers add up to the category's power. In the
  \<^verbatim>\<open>.jsx\<close> variant tracking is on for \<^verbatim>\<open>delegateVote\<close> only: for every batch and
  every category the per-voter powers and the power of the \<^verbatim>\<open>vote\<close> events counted
  in the category add up to the category's power, so every category that no
  \<^verbatim>\<open>vote\<close> event of the batch is counted in closes, whatever the batch holds for
  the other categories.
\<close>

theorem voter_powers_close_category_totals:
  "(\<exists>st. stats rawHits = Some st
      \<and> (\<forall>opt. voterPowerSum (perCategoryAddresses st opt) = c_power (byOption st opt)))
   \<and> (\<exists>st. statsJsx rawHits = Some st
      \<and> (\<forall>opt. voterPowerSum (perCategoryAddresses st opt) + directVotePower opt rawHits
                = c_power (byOption st opt))
      \<and> (\<forall>opt. (\<forall>h \<in> set rawHits. \<not> directVoteIn opt h) \<longrightarrow>
            voterPowerSum (perCategoryAddresses st opt) = c_power (byOption st opt)))"
proof -
  let ?jsx = "fold (\<lambda>h. applyDecodedJsx (decodeHit h)) rawHits initialStats"
  have "closed (fold (\<lambda>h. applyDecoded (decodeHit h)) rawHits initialStats)"
    by (rule fold_invariant[where P = closed]) (simp_all add: closed_applyDecoded closed_initial)
  moreover have gap: "voterPowerSum (perCategoryAddresses ?jsx opt) + directVotePower opt rawHits
      = c_power (byOption ?jsx opt)" for opt
    using foldJsx_gap[of rawHits initialStats opt] closed_initial
    by (simp add: closed_def)
  moreover have "voterPowerSum (perCategoryAddresses ?jsx opt) = c_power (byOption ?jsx opt)"
    if "\<forall>h \<in> set rawHits. \<not> directVoteIn opt h" for opt
    using gap[of opt] directVotePower_none[OF that] by simp
  ultimately show ?thesis
    by (simp add: stats_fold statsJsx_fold closed_def)
qed

theorem voter_powers_close_category_totals_witness:
  "\<not> directVoteIn No \<lparr> identifier = ''vote'', address = Some ''erd1abc'',
                        topics = Some [''01'', ''796573'', ''03e8'', ''07d0''] \<rparr>
   \<and> \<not> directVoteIn No \<lparr> identifier = ''delegateVote'', address = Some ''erd1xyz'',
                          topics = Some [''01'', ''6e6f'', ''00'', ''01f4'', ''02bc''] \<rparr>
   \<and> directVotePower Yes
        [\<lparr> identifier = ''vote'', address = Some ''erd1abc'',
            topics = Some [''01'', ''796573'', ''03e8'', ''07d0''] \<rparr>,
         \<lparr> identifier = ''delegateVote'', address = Some ''erd1xyz'',
            topics = Some [''01'', ''6e6f'', ''00'', ''01f4'', ''02bc''] \<rparr>] = 2000
   \<and> (\<exists>st. statsJsx
               [\<lparr> identifier = ''vote'', address = Some ''erd1abc'',
                   topics = Some [''01'', ''796573'', ''03e8'', ''07d0''] \<rparr>,
                \<lparr> identifier = ''delegateVote'', address = Some ''erd1xyz'',
                   topics = Some [''01'', ''6e6f'', ''00'', ''01f4'', ''02bc''] \<rparr>] = Some st
        \<and> voterPowerSum (perCategoryAddresses st No) = c_power (byOption st No)
        \<and> c_power (byOption st No) = 700
        \<and> voterPowerSum (perCategoryAddresses st Yes) + 2000 = c_power (byOption st Yes)
        \<and> c_power (byOption st Yes) = 2000)"
proof -
  let ?v = "\<lparr> identifier = ''vote'', address = Some ''erd1abc'',
              topics = Some [''01'', ''796573'', ''03e8'', ''07d0''] \<rparr>"
  let ?d = "\<lparr> identifier = ''delegateVote'', address = Some ''erd1xyz'',
              topics = Some [''01'', ''6e6f'', ''00'', ''01f4'', ''02bc''] \<rparr>"
  have nv: "\<not> directVoteIn No ?v" by code_simp
  have nd: "\<not> directVoteIn No ?d" by code_simp
  have dp: "directVotePower Yes [?v, ?d] = 2000" by code_simp
  have run: "c_power (byOption (the (statsJsx [?v, ?d])) No) = 700"
    "c_power (byOption (the (statsJsx [?v, ?d])) Yes) = 2000"
    by code_simp+
  from voter_powers_close_category_totals[of "[?v, ?d]"]
  obtain st where st: "statsJsx [?v, ?d] = Some st"
    and eq: "\<forall>opt. voterPowerSum (perCategoryAddresses st opt) + directVotePower opt [?v, ?d]
                = c_power (byOption st opt)"
    and cl: "\<forall>opt. (\<forall>h \<in> set [?v, ?d]. \<not> directVoteIn opt h) \<longrightarrow>
            voterPowerSum (perCategoryAddresses st opt) = c_power (byOption st opt)"
    by blast
  from cl nv nd have no: "voterPowerSum (perCategoryAddresses st No) = c_power (byOption st No)"
    by simp
  from eq dp have yes: "voterPowerSum (perCategoryAddresses st Yes) + 2000 = c_power (byOption st Yes)"
    by metis
  from run st have "c_power (byOption st No) = 700" "c_power (byOption st Yes) = 2000"
    by simp_all
  with nv nd dp st no yes show ?thesis by blast
qed

text \<open>With a \<^verbatim>\<open>vote\<close> event the \<^verbatim>\<open>.jsx\<close> variant does not close: the category
  total counts the event, no per-voter entry does.\<close>

lemma statsJsx_vote_not_tracked:
  "(case statsJsx [\<lparr> identifier = ''vote'', address = Some ''erd1abc'',
                     topics = Some [''01'', ''796573'', ''03e8'', ''07d0''] \<rparr>] of
      None \<Rightarrow> False
    | Some st \<Rightarrow>
        voterPowerSum (perCategoryAddresses st Yes) = 0 \<and> c_power (byOption st Yes) = 2000)"
  by code_simp

subsection \<open>The order of the events does not matter\<close>

lemma map_of_mapSet: "map_of (mapSet k v m) = (map_of m)(k \<mapsto> v)"
  by (induction m) (auto simp: fun_eq_iff)

lemma byOption_addToTotals: "byOption (addToTotals opt vp st) = bumpTotals opt vp (byOption st)"
  by (simp add: addToTotals_def bumpTotals_def)

lemma voters_addToVoter:
  "(\<lambda>q. map_of (perCategoryAddresses (addToVoter opt a us vp st) q)) =
     bumpVoter opt a us vp (\<lambda>q. map_of (perCategoryAddresses st q))"
  by (auto simp: addToVoter_def bumpVoter_def bumpEntry_def Let_def mapGet_def
        map_of_mapSet fun_eq_iff split: option.splits)

lemma delegation_addToDelegation:
  "map_of (delegationBreakdown (addToDelegation l vp st)) =
     bumpDelegation l vp (map_of (delegationBreakdown st))"
  by (simp add: addToDelegation_def bumpDelegation_def mapGet_def map_of_mapSet)

lemma delegationCount_addToDelegationCount:
  "map_of (delegationCountBreakdown (addToDelegationCount l st)) =
     bumpDelegationCount l (map_of (delegationCountBreakdown st))"
  by (simp add: addToDelegationCount_def bumpDelegationCount_def mapGet_def map_of_mapSet)

lemmas contents_updates =
  byOption_addToTotals totalPower_addToTotals voters_addToVoter delegation_addToDelegation
  delegationCount_addToDelegationCount

lemma contentsOf_applyDecoded: "contentsOf (applyDecoded d st) = contribute d (contentsOf st)"
  by (cases d) (simp_all add: contentsOf_def contents_updates)

lemma contentsOf_applyDecodedJsx:
  "contentsOf (applyDecodedJsx d st) = contributeJsx d (contentsOf st)"
  by (cases d) (simp_all add: contentsOf_def contents_updates)

lemma bumpTotals_commute:
  "bumpTotals o1 p1 (bumpTotals o2 p2 b) = bumpTotals o2 p2 (bumpTotals o1 p1 b)"
  by (auto simp: bumpTotals_def fun_eq_iff)

lemma bumpEntry_commute:
  "bumpEntry u1 p1 (Some (bumpEntry u2 p2 e)) = bumpEntry u2 p2 (Some (bumpEntry u1 p1 e))"
  by (cases e) (simp_all add: bumpEntry_def)

lemma bumpVoter_commute:
  "bumpVoter o1 a1 u1 p1 (bumpVoter o2 a2 u2 p2 p) = bumpVoter o2 a2 u2 p2 (bumpVoter o1 a1 u1 p1 p)"
  by (auto simp: bumpVoter_def fun_eq_iff bumpEntry_commute[of u1 p1 u2 p2])

lemma bumpDelegation_commute:
  "bumpDelegation l1 p1 (bumpDelegation l2 p2 d) = bumpDelegation l2 p2 (bumpDelegation l1 p1 d)"
  by (auto simp: bumpDelegation_def fun_eq_iff split: option.splits)

lemma bumpDelegationCount_commute:
  "bumpDelegationCount l1 (bumpDelegationCount l2 c) = bumpDelegationCount l2 (bumpDelegationCount l1 c)"
  by (auto simp: bumpDelegationCount_def fun_eq_iff split: option.splits)

lemma contribute_commute: "contribute x (contribute y v) = contribute y (contribute x v)"
proof -
  obtain b t p d c where v: "v = (b, t, p, d, c)" by (metis prod_cases5)
  show ?thesis
    unfolding v
    by (cases x; cases y)
       (simp_all add: bumpTotals_commute[of _ _ _ _ b] bumpVoter_commute[of _ _ _ _ _ _ _ _ p]
          bumpDelegation_commute[of _ _ _ _ d] bumpDelegationCount_commute[of _ _ c])
qed

lemma contributeJsx_commute:
  "contributeJsx x (contributeJsx y v) = contributeJsx y (contributeJsx x v)"
proof -
  obtain b t p d c where v: "v = (b, t, p, d, c)" by (metis prod_cases5)
  show ?thesis
    unfolding v
    by (cases x; cases y)
       (simp_all add: bumpTotals_commute[of _ _ _ _ b] bumpVoter_commute[of _ _ _ _ _ _ _ _ p]
          bumpDelegation_commute[of _ _ _ _ d])
qed

lemma contentsOf_fold:
  assumes "\<And>d st. contentsOf (g d st) = k d (contentsOf st)"
  shows "contentsOf (fold (\<lambda>h. g (decodeHit h)) hs st) = fold (\<lambda>h. k (decodeHit h)) hs (contentsOf st)"
  by (induction hs arbitrary: st) (simp_all add: assms)

text \<open>
  C3. For every batch and every permutation of it the aggregation yields the same
  category totals (count and power), the same total power, the same per-voter entries
  in every category and the same delegation totals per label; in both source variants.
\<close>

theorem stats_order_independent:
  assumes "mset xs = mset ys"
  shows "(\<exists>s t. stats xs = Some s \<and> stats ys = Some t \<and> contentsOf s = contentsOf t)
       \<and> (\<exists>s t. statsJsx xs = Some s \<and> statsJsx ys = Some t \<and> contentsOf s = contentsOf t)"
proof -
  have "fold (\<lambda>h. contribute (decodeHit h)) xs = fold (\<lambda>h. contribute (decodeHit h)) ys"
    by (rule fold_multiset_equiv[OF _ assms]) (simp add: fun_eq_iff contribute_commute)
  moreover have "fold (\<lambda>h. contributeJsx (decodeHit h)) xs = fold (\<lambda>h. contributeJsx (decodeHit h)) ys"
    by (rule fold_multiset_equiv[OF _ assms]) (simp add: fun_eq_iff contributeJsx_commute)
  ultimately show ?thesis
    by (simp add: stats_fold statsJsx_fold
          contentsOf_fold[of applyDecoded contribute, OF contentsOf_applyDecoded]
          contentsOf_fold[of applyDecodedJsx contributeJsx, OF contentsOf_applyDecodedJsx])
qed

theorem stats_order_independent_witness:
  "mset [\<lparr> identifier = ''vote'', address = Some ''erd1abc'',
            topics = Some [''01'', ''796573'', ''03e8'', ''07d0''] \<rparr>,
         \<lparr> identifier = ''delegateVote'', address = Some ''erd1xyz'',
            topics = Some [''01'', ''796573'', ''00'', ''01f4'', ''02bc''] \<rparr>]
   = mset [\<lparr> identifier = ''delegateVote'', address = Some ''erd1xyz'',
            topics = Some [''01'', ''796573'', ''00'', ''01f4'', ''02bc''] \<rparr>,
         \<lparr> identifier = ''vote'', address = Some ''erd1abc'',
            topics = Some [''01'', ''796573'', ''03e8'', ''07d0''] \<rparr>]
   \<and> (\<exists>s t.
        stats [\<lparr> identifier = ''vote'', address = Some ''erd1abc'',
                  topics = Some [''01'', ''796573'', ''03e8'', ''07d0''] \<rparr>,
               \<lparr> identifier = ''delegateVote'', address = Some ''erd1xyz'',
                  topics = Some [''01'', ''796573'', ''00'', ''01f4'', ''02bc''] \<rparr>] = Some s
      \<and> stats [\<lparr> identifier = ''delegateVote'', address = Some ''erd1xyz'',
                  topics = Some [''01'', ''796573'', ''00'', ''01f4'', ''02bc''] \<rparr>,
               \<lparr> identifier = ''vote'', address = Some ''erd1abc'',
                  topics = Some [''01'', ''796573'', ''03e8'', ''07d0''] \<rparr>] = Some t
      \<and> contentsOf s = contentsOf t)"
proof -
  let ?a = "\<lparr> identifier = ''vote'', address = Some ''erd1abc'',
              topics = Some [''01'', ''796573'', ''03e8'', ''07d0''] \<rparr>"
  let ?b = "\<lparr> identifier = ''delegateVote'', address = Some ''erd1xyz'',
              topics = Some [''01'', ''796573'', ''00'', ''01f4'', ''02bc''] \<rparr>"
  have h: "mset [?a, ?b] = mset [?b, ?a]" by simp
  from stats_order_independent[OF h] h show ?thesis by blast
qed

text \<open>The \<^verbatim>\<open>Map\<close>s themselves do depend on the order: entries are listed in the order
  of their first event.\<close>

lemma stats_insertion_order:
  "map_option (\<lambda>st. map fst (perCategoryAddresses st Yes))
     (stats [\<lparr> identifier = ''vote'', address = Some ''erd1abc'',
               topics = Some [''01'', ''796573'', ''03e8'', ''07d0''] \<rparr>,
             \<lparr> identifier = ''delegateVote'', address = Some ''erd1xyz'',
               topics = Some [''01'', ''796573'', ''00'', ''01f4'', ''02bc''] \<rparr>])
     = Some [Some ''erd1abc'', Some ''00'']
   \<and> map_option (\<lambda>st. map fst (perCategoryAddresses st Yes))
     (stats [\<lparr> identifier = ''delegateVote'', address = Some ''erd1xyz'',
               topics = Some [''01'', ''796573'', ''00'', ''01f4'', ''02bc''] \<rparr>,
             \<lparr> identifier = ''vote'', address = Some ''erd1abc'',
               topics = Some [''01'', ''796573'', ''03e8'', ''07d0''] \<rparr>])
     = Some [Some ''00'', Some ''erd1abc'']"
  by code_simp

section \<open>HexCodec: chunks and their values\<close>

lemma isHexDigit_code: "isHexDigit c \<longleftrightarrow>
    (let n = (of_char c :: nat) in (48 \<le> n \<and> n \<le> 57) \<or> (97 \<le> n \<and> n \<le> 102) \<or> (65 \<le> n \<and> n \<le> 70))"
  by (auto simp: isHexDigit_def hexDigit_def Let_def)

lemma hexDigit_plain:
  assumes "isHexDigit c"
  shows "\<not> isWhiteSpace c" "\<not> isLineTerminator c" "c \<noteq> CHR ''-''" "c \<noteq> CHR ''+''"
    "c \<noteq> CHR ''x''" "c \<noteq> CHR ''X''"
  using assms by (auto simp: isHexDigit_code isWhiteSpace_def isLineTerminator_def Let_def)

lemma parseInt16_digit:
  assumes "isHexDigit a"
  shows "parseInt16 [a] = Num (hexValue [a])"
  using assms hexDigit_plain[OF assms]
  by (simp add: parseInt16_def stripSign_def stripHexPrefix_def)

lemma parseInt16_pair:
  assumes "isHexDigit a" "isHexDigit b"
  shows "parseInt16 [a, b] = Num (hexValue [a, b])"
  using assms hexDigit_plain[OF assms(1)] hexDigit_plain[OF assms(2)]
  by (simp add: parseInt16_def stripSign_def stripHexPrefix_def)

lemma parseInt16_invalid:
  assumes "\<not> isHexDigit a" "\<not> isWhiteSpace a" "a \<noteq> CHR ''-''" "a \<noteq> CHR ''+''"
  shows "parseInt16 (a # r) = NaN"
proof -
  have "a \<noteq> CHR ''0''" using assms(1) by (auto simp: isHexDigit_code)
  then have "stripHexPrefix (a # r) = a # r"
    by (simp add: stripHexPrefix_def split: list.splits)
  with assms show ?thesis
    by (simp add: parseInt16_def stripSign_def)
qed

lemma matchChunks_pairs:
  "\<forall>c \<in> set hex. \<not> isLineTerminator c \<Longrightarrow> matchChunks hex = pairsFromLeft hex"
  by (induction hex rule: pairsFromLeft.induct) simp_all

lemma length_pairsFromLeft: "length (pairsFromLeft hex) = (length hex + 1) div 2"
  by (induction hex rule: pairsFromLeft.induct) simp_all

lemma hexToBytes_digits:
  "list_all isHexDigit hex \<Longrightarrow> hexToBytes hex = map (\<lambda>ch. Num (hexValue ch)) (pairsFromLeft hex)"
proof (induction hex rule: pairsFromLeft.induct)
  case 1
  show ?case by (simp add: hexToBytes_def)
next
  case (2 a)
  then show ?case
    by (simp add: hexToBytes_def hexDigit_plain parseInt16_digit)
next
  case (3 a b r)
  then have "hexToBytes r = map (\<lambda>ch. Num (hexValue ch)) (pairsFromLeft r)" by simp
  with 3 show ?case
    by (simp add: hexToBytes_def hexDigit_plain parseInt16_pair)
qed

text \<open>
  What the decoding step does. On a string without line terminators it yields one entry
  per chunk, the chunks being pairs taken from the left, with the last character alone
  when the length is odd. On hex digits only, the entries are the values of the chunks.
  A chunk that opens with a character that is no hex digit, white space or sign yields
  \<^verbatim>\<open>NaN\<close>.
\<close>

lemma hexToBytes_chunks_from_left:
  "(list_all isHexDigit hex \<longrightarrow>
      hexToBytes hex = map (\<lambda>ch. Num (hexValue ch)) (pairsFromLeft hex))
   \<and> ((\<forall>c \<in> set hex. \<not> isLineTerminator c) \<longrightarrow>
      hexToBytes hex = map parseInt16 (pairsFromLeft hex)
      \<and> length (hexToBytes hex) = (length hex + 1) div 2)
   \<and> (\<not> isHexDigit a \<and> \<not> isWhiteSpace a \<and> a \<noteq> CHR ''-'' \<and> a \<noteq> CHR ''+''
        \<longrightarrow> parseInt16 (a # r) = NaN)"
proof (intro conjI impI)
  assume "list_all isHexDigit hex"
  then show "hexToBytes hex = map (\<lambda>ch. Num (hexValue ch)) (pairsFromLeft hex)"
    by (rule hexToBytes_digits)
next
  assume "\<forall>c \<in> set hex. \<not> isLineTerminator c"
  then show "hexToBytes hex = map parseInt16 (pairsFromLeft hex)"
    "length (hexToBytes hex) = (length hex + 1) div 2"
    by (simp_all add: hexToBytes_def matchChunks_pairs length_pairsFromLeft)
next
  assume "\<not> isHexDigit a \<and> \<not> isWhiteSpace a \<and> a \<noteq> CHR ''-'' \<and> a \<noteq> CHR ''+''"
  then show "parseInt16 (a # r) = NaN"
    by (simp add: parseInt16_invalid)
qed

text \<open>
  C5. As specified, the byte-decoding step splits the string into byte pairs, pads an
  odd-length input with a zero nibble in front before pairing, yields the empty sequence
  for every input with an invalid character, and never raises. The code,
  \<^verbatim>\<open>hex.match(/.{1,2}/g)?.map((b) => parseInt(b, 16)) ?? []\<close>, never raises, but it
  breaks the other two parts. It pairs from the left without padding, so in
  \<^verbatim>\<open>abc\<close> the last character is a byte of its own: the bytes are \<open>0xab, 0x0c\<close> and
  not \<open>0x0a, 0xbc\<close>. And it keeps what \<^verbatim>\<open>parseInt\<close> gives for an invalid chunk:
  \<^verbatim>\<open>zz\<close> yields one entry \<^verbatim>\<open>NaN\<close>, not the empty sequence. The sibling
  \<^verbatim>\<open>hexToBigInt\<close> does both: it puts \<^verbatim>\<open>0\<close> in front of an odd-length input and
  rejects a text that is not hex.
\<close>

theorem hexToBytes_no_padding_no_rejection:
  "hexToBytes ''abc'' = [Num 171, Num 12]
   \<and> hexToBytes_spec ''abc'' = [Num 10, Num 188]
   \<and> hexToBytes ''abc'' \<noteq> hexToBytes_spec ''abc''
   \<and> hexToBigInt (Some ''abc'') = 2748
   \<and> hexToBigInt (Some ''0abc'') = 2748
   \<and> hexToBytes ''zz'' = [NaN]
   \<and> hexToBytes_spec ''zz'' = []
   \<and> hexToBytes ''zz'' \<noteq> []
   \<and> hexToBytes ''796573zz'' = [Num 121, Num 101, Num 115, NaN]
   \<and> bigIntOfHexLiteral ''zz'' = Inl SyntaxError
   \<and> hexToBigInt (Some ''zz'') = 0"
  by code_simp

section \<open>OptionDecoder\<close>

lemma hexDigit_hexChar: "k < 16 \<Longrightarrow> hexDigit (hexChar k) = Some (int k)"
proof -
  have "list_all (\<lambda>k. hexDigit (hexChar k) = Some (int k)) [0..<16]" by code_simp
  then show "k < 16 \<Longrightarrow> hexDigit (hexChar k) = Some (int k)" by (simp add: list_all_iff)
qed

lemma hexChar_digits: "k < 16 \<Longrightarrow> isHexDigit (hexChar k)"
  by (simp add: isHexDigit_def hexDigit_hexChar)

lemma hexValue_hexChar:
  assumes "i < 16" "j < 16"
  shows "hexValue [hexChar i, hexChar j] = int (16 * i + j)"
  using assms by (simp add: hexValue_def hexDigit_hexChar)

lemma char_nibbles: "(of_char c :: nat) div 16 < 16" "(of_char c :: nat) mod 16 < 16"
proof -
  have "(of_char c :: nat) < 256" by simp
  then show "(of_char c :: nat) div 16 < 16" by linarith
  show "(of_char c :: nat) mod 16 < 16" by simp
qed

lemma hexToBytes_hexOf: "hexToBytes (hexOf w) = map (\<lambda>c. Num (int (of_char c))) w"
proof (induction w)
  case Nil
  show ?case by (simp add: hexOf_def hexToBytes_def)
next
  case (Cons c w)
  let ?h = "hexChar (of_char c div 16)" and ?l = "hexChar (of_char c mod 16)"
  have d: "isHexDigit ?h" "isHexDigit ?l"
    by (simp_all add: hexChar_digits char_nibbles)
  have split: "hexOf (c # w) = ?h # ?l # hexOf w"
    by (simp add: hexOf_def)
  have chunk: "matchChunks (?h # ?l # hexOf w) = [?h, ?l] # matchChunks (hexOf w)"
    using hexDigit_plain(2)[OF d(1)] hexDigit_plain(2)[OF d(2)] by simp
  have "parseInt16 [?h, ?l] = Num (int (16 * (of_char c div 16) + of_char c mod 16))"
    by (simp only: parseInt16_pair[OF d] hexValue_hexChar[OF char_nibbles])
  then have val: "parseInt16 [?h, ?l] = Num (int (of_char c))"
    by simp
  from Cons show ?case
    unfolding split hexToBytes_def chunk by (simp add: val)
qed

lemma hexOf_Nil_iff: "hexOf w = [] \<longleftrightarrow> w = []"
  by (cases w) (simp_all add: hexOf_def)

lemma hexToAscii_hexOf: "hexToAscii (Some (hexOf w)) = stripTrailingNul (lit w)"
proof (cases "w = []")
  case True
  then show ?thesis by (simp add: hexToAscii_def hexOf_def stripTrailingNul_def lit_def)
next
  case False
  have "toUint16 (Num (int (of_char c))) = of_char c" for c :: char
  proof -
    have "int (of_char c) < 65536" using nat_of_char_less_256[of c] by linarith
    then show ?thesis by simp
  qed
  then have "map toUint16 (map (\<lambda>c. Num (int (of_char c))) w) = lit w"
    by (simp add: lit_def)
  with False show ?thesis
    by (simp add: hexToAscii_def hexOf_Nil_iff hexToBytes_hexOf)
qed

lemma lowerUnit_zero: "lowerUnit c = 0 \<longleftrightarrow> c = 0"
  by (simp add: lowerUnit_def)

lemma toLowerCase_strip: "toLowerCase (stripTrailingNul cs) = stripTrailingNul (toLowerCase cs)"
proof -
  have "(\<lambda>c. c = 0) \<circ> lowerUnit = (\<lambda>c. c = 0)"
    by (simp add: fun_eq_iff lowerUnit_zero)
  then show ?thesis
    by (simp add: toLowerCase_def stripTrailingNul_def rev_map dropWhile_map)
qed

lemma lowered_hexOf:
  "toLowerCase (hexToAscii (Some (hexOf w))) = stripTrailingNul (toLowerCase (lit w))"
  by (simp add: hexToAscii_hexOf toLowerCase_strip)

lemma strip_words:
  "stripTrailingNul (lit ''yes'') = lit ''yes''"
  "stripTrailingNul (lit ''no'') = lit ''no''"
  "stripTrailingNul (lit ''abstain'') = lit ''abstain''"
  "stripTrailingNul (lit ''veto'') = lit ''veto''"
  "stripTrailingNul (lit ''ncv'') = lit ''ncv''"
  "stripTrailingNul (lit ''veto_power'') = lit ''veto_power''"
  by code_simp+

lemma distinct_words:
  "distinct [lit ''yes'', lit ''no'', lit ''abstain'', lit ''veto'', lit ''ncv'', lit ''veto_power'']"
  by code_simp

lemma decodeOption_words:
  assumes "toLowerCase (hexToAscii hex) = s"
  shows "s = lit ''yes'' \<Longrightarrow> decodeOption hex = Yes"
    "s = lit ''no'' \<Longrightarrow> decodeOption hex = No"
    "s = lit ''abstain'' \<Longrightarrow> decodeOption hex = Abstain"
    "s = lit ''veto'' \<Longrightarrow> decodeOption hex = Veto"
    "s = lit ''ncv'' \<Longrightarrow> decodeOption hex = Veto"
    "s = lit ''veto_power'' \<Longrightarrow> decodeOption hex = Veto"
  using assms distinct_words by (auto simp: decodeOption_def Let_def)

lemma strip_leading_nul:
  "stripTrailingNul (0 # cs) = [] \<or> (\<exists>ds. stripTrailingNul (0 # cs) = 0 # ds)"
proof (cases "\<forall>c \<in> set (rev cs). c = 0")
  case True
  then have "dropWhile (\<lambda>c. c = 0) (rev cs @ [0]) = []"
    by simp
  then show ?thesis by (simp add: stripTrailingNul_def)
next
  case False
  then obtain c where c: "c \<in> set (rev cs)" "\<not> c = 0" by blast
  have "dropWhile (\<lambda>c. c = 0) (rev cs @ [0]) = dropWhile (\<lambda>c. c = 0) (rev cs) @ [0]"
    using c by (rule dropWhile_append1[where P = "\<lambda>c. c = 0"])
  then show ?thesis by (simp add: stripTrailingNul_def)
qed

lemma decodeOption_leading_invalid:
  assumes "hexToBytes x = NaN # rest"
  shows "decodeOption (Some x) = Unknown"
proof -
  have ne: "x \<noteq> []" using assms by (auto simp: hexToBytes_def)
  let ?s = "toLowerCase (hexToAscii (Some x))"
  have "hexToAscii (Some x) = stripTrailingNul (0 # map toUint16 rest)"
    using ne assms by (simp add: hexToAscii_def)
  with strip_leading_nul[of "map toUint16 rest"]
  have "?s = [] \<or> (\<exists>ds. ?s = 0 # ds)"
    by (auto simp: toLowerCase_def lowerUnit_def)
  moreover have "[] \<notin> {lit ''yes'', lit ''no'', lit ''abstain'', lit ''veto'', lit ''ncv'', lit ''veto_power''}"
    by (simp add: lit_def)
  moreover have "0 # ds \<notin> {lit ''yes'', lit ''no'', lit ''abstain'', lit ''veto'', lit ''ncv'', lit ''veto_power''}"
    for ds
    by (simp add: lit_def)
  ultimately have "?s \<notin> {lit ''yes'', lit ''no'', lit ''abstain'', lit ''veto'', lit ''ncv'', lit ''veto_power''}"
    by metis
  then show ?thesis
    by (simp add: decodeOption_def Let_def)
qed

text \<open>
  On well-formed input the decoder does what is asked of it. On the hex encoding of a
  text \<open>w\<close> it depends on the lower-cased text only (case-insensitive); a text that
  lower-cases to "veto", "ncv" or "veto_power" gives Veto; "yes", "no", "abstain" give
  their options; every other text gives Unknown (trailing NUL characters do not count),
  and so do the absent and the empty input.
\<close>

lemma decodeOption_on_encoded_text:
  "(toLowerCase (lit w) \<in> {lit ''veto'', lit ''ncv'', lit ''veto_power''} \<longrightarrow>
      decodeOption (Some (hexOf w)) = Veto)
   \<and> (toLowerCase (lit w) = lit ''yes'' \<longrightarrow> decodeOption (Some (hexOf w)) = Yes)
   \<and> (toLowerCase (lit w) = lit ''no'' \<longrightarrow> decodeOption (Some (hexOf w)) = No)
   \<and> (toLowerCase (lit w) = lit ''abstain'' \<longrightarrow> decodeOption (Some (hexOf w)) = Abstain)
   \<and> (toLowerCase (lit w) = toLowerCase (lit w') \<longrightarrow>
      decodeOption (Some (hexOf w)) = decodeOption (Some (hexOf w')))
   \<and> (stripTrailingNul (toLowerCase (lit w)) \<notin>
        {lit ''yes'', lit ''no'', lit ''abstain'', lit ''veto'', lit ''ncv'', lit ''veto_power''} \<longrightarrow>
      decodeOption (Some (hexOf w)) = Unknown)
   \<and> decodeOption None = Unknown \<and> decodeOption (Some []) = Unknown"
proof (intro conjI impI)
  assume "toLowerCase (lit w) \<in> {lit ''veto'', lit ''ncv'', lit ''veto_power''}"
  then show "decodeOption (Some (hexOf w)) = Veto"
    using decodeOption_words(4-6)[OF lowered_hexOf[of w]] by (auto simp: strip_words)
next
  assume "toLowerCase (lit w) = lit ''yes''"
  then show "decodeOption (Some (hexOf w)) = Yes"
    using decodeOption_words(1)[OF lowered_hexOf[of w]] by (simp add: strip_words)
next
  assume "toLowerCase (lit w) = lit ''no''"
  then show "decodeOption (Some (hexOf w)) = No"
    using decodeOption_words(2)[OF lowered_hexOf[of w]] by (simp add: strip_words)
next
  assume "toLowerCase (lit w) = lit ''abstain''"
  then show "decodeOption (Some (hexOf w)) = Abstain"
    using decodeOption_words(3)[OF lowered_hexOf[of w]] by (simp add: strip_words)
next
  assume "toLowerCase (lit w) = toLowerCase (lit w')"
  then show "decodeOption (Some (hexOf w)) = decodeOption (Some (hexOf w'))"
    by (simp add: decodeOption_def lowered_hexOf)
next
  assume "stripTrailingNul (toLowerCase (lit w)) \<notin>
        {lit ''yes'', lit ''no'', lit ''abstain'', lit ''veto'', lit ''ncv'', lit ''veto_power''}"
  then show "decodeOption (Some (hexOf w)) = Unknown"
    by (simp add: decodeOption_def Let_def lowered_hexOf)
next
  show "decodeOption None = Unknown" by code_simp
next
  show "decodeOption (Some []) = Unknown" by code_simp
qed

text \<open>
  C6. As specified, \<^verbatim>\<open>decodeOption\<close> never fails, is case-insensitive, maps the three
  veto spellings to Veto and "yes", "no", "abstain" to their options, and maps every
  other input, malformed hex included, to Unknown. The code breaks the last part: in
  \<^verbatim>\<open>796573zz\<close> the chunk \<^verbatim>\<open>zz\<close> parses to \<^verbatim>\<open>NaN\<close>, which
  \<^verbatim>\<open>String.fromCharCode\<close> turns into a NUL character; the trailing NUL is stripped
  and the malformed input is read as "yes". The handler of \<^verbatim>\<open>hexToAscii\<close> that
  returns the empty text never runs for it, since \<^verbatim>\<open>parseInt\<close> does not raise; the
  sibling \<^verbatim>\<open>hexToBigInt\<close> rejects the same text.
\<close>

theorem decodeOption_malformed_hex_is_yes:
  "\<not> list_all isHexDigit ''796573zz''
   \<and> hexToBytes ''796573zz'' = [Num 121, Num 101, Num 115, NaN]
   \<and> hexToAscii (Some ''796573zz'') = lit ''yes''
   \<and> decodeOption (Some ''796573zz'') = Yes
   \<and> decodeOption (Some ''796573zz'') \<noteq> Unknown
   \<and> decodeOption (Some ''796573zz'') = decodeOption (Some (hexOf ''yes''))
   \<and> bigIntOfHexLiteral ''796573zz'' = Inl SyntaxError
   \<and> hexToBigInt (Some ''796573zz'') = 0"
  by code_simp

text \<open>The spellings named by the specification, and the hex of a word with a NUL
  behind it.\<close>

lemma decodeOption_examples:
  "decodeOption (Some (hexOf ''NCV'')) = Veto"
  "decodeOption (Some (hexOf ''veto_power'')) = Veto"
  "decodeOption (Some (hexOf ''Veto'')) = Veto"
  "decodeOption (Some ''79657300'') = Yes"
  by code_simp+

section \<open>The 32-bit operators on values that fit\<close>

lemma toInt32_id: "- (2 ^ 31) \<le> x \<Longrightarrow> x < 2 ^ 31 \<Longrightarrow> toInt32 x = x"
  by (simp add: toInt32_def signed_take_bit_int_eq_self)

lemma toInt32_idem [simp]: "toInt32 (toInt32 x) = toInt32 x"
  by (simp add: toInt32_def)

lemma take_bit_toInt32: "n \<le> 32 \<Longrightarrow> take_bit n (toInt32 x) = take_bit n x"
  by (simp add: toInt32_def take_bit_signed_take_bit)

lemma toInt32_cong: "take_bit 32 a = take_bit 32 b \<Longrightarrow> toInt32 a = toInt32 b"
  using signed_take_bit_eq_iff_take_bit_eq[of 31 a b] by (simp add: toInt32_def)

lemma toInt32_or: "toInt32 (a OR b) = toInt32 a OR toInt32 b"
  by (simp add: toInt32_def bit_eq_iff bit_simps)

lemma shl_nat: "n < 32 \<Longrightarrow> shl a (int n) = toInt32 (push_bit n a)"
proof -
  assume n: "n < 32"
  have "take_bit 32 (push_bit n (toInt32 a)) = take_bit 32 (push_bit n a)"
    by (simp add: take_bit_push_bit take_bit_toInt32)
  then have "toInt32 (push_bit n (toInt32 a)) = toInt32 (push_bit n a)"
    by (rule toInt32_cong)
  then show ?thesis
    using n by (simp add: shl_def)
qed

lemma push_toInt32: "n < 32 \<Longrightarrow> toInt32 (push_bit n (toInt32 a)) = toInt32 (push_bit n a)"
  using shl_nat[of n a] by (simp add: shl_def)

lemma sar_nat: "n < 32 \<Longrightarrow> sar a (int n) = drop_bit n (toInt32 a)"
  by (simp add: sar_def)

lemma maxv_mask:
  assumes "t < 32"
  shows "toInt32 (shl 1 (int t) - 1) = mask t"
proof -
  have "take_bit 32 (toInt32 (2 ^ t) - 1) = take_bit 32 (take_bit 32 (toInt32 (2 ^ t)) - take_bit 32 1)"
    by (simp only: take_bit_diff)
  also have "\<dots> = take_bit 32 (take_bit 32 (2 ^ t) - take_bit 32 1)"
    by (simp only: take_bit_toInt32[OF order_refl])
  also have "\<dots> = take_bit 32 (2 ^ t - 1)"
    by (simp only: take_bit_diff)
  finally have "toInt32 (toInt32 (2 ^ t) - 1) = toInt32 (2 ^ t - 1)"
    by (rule toInt32_cong)
  have "(2::int) ^ t \<le> 2 ^ 31"
    using assms by (intro power_increasing) simp_all
  moreover have "0 < (2::int) ^ t" by simp
  ultimately have "toInt32 (2 ^ t - 1) = 2 ^ t - 1"
    by (intro toInt32_id) linarith+
  moreover note \<open>toInt32 (toInt32 (2 ^ t) - 1) = toInt32 (2 ^ t - 1)\<close>
  ultimately show ?thesis
    using assms by (simp add: shl_nat push_bit_eq_mult mask_eq_exp_minus_1)
qed

lemma band_maxv:
  assumes "t < 32"
  shows "band x (shl 1 (int t) - 1) = take_bit t x"
proof -
  have "band x (shl 1 (int t) - 1) = toInt32 x AND mask t"
    by (simp add: band_def maxv_mask[OF assms])
  also have "\<dots> = take_bit t (toInt32 x)"
    by (simp add: take_bit_eq_mask)
  also have "\<dots> = take_bit t x"
    using assms by (simp add: take_bit_toInt32)
  finally show ?thesis .
qed

text \<open>A group read from the accumulator is the same slice of the unbounded
  concatenation, as long as the slice lies within the low 32 bits.\<close>

lemma group_slice:
  assumes "b + t \<le> 32" "0 < t" "t < 32"
  shows "band (sar (toInt32 N) (int b)) (shl 1 (int t) - 1) = (N div 2 ^ b) mod 2 ^ t"
proof -
  have b: "b < 32" and t: "t < 32" using assms by simp_all
  have "band (sar (toInt32 N) (int b)) (shl 1 (int t) - 1) = take_bit t (drop_bit b (toInt32 N))"
    by (simp add: band_maxv[OF t] sar_nat[OF b])
  also have "\<dots> = drop_bit b (take_bit (t + b) (toInt32 N))"
    by (simp add: take_bit_drop_bit)
  also have "\<dots> = drop_bit b (take_bit (t + b) N)"
    using assms by (simp add: take_bit_toInt32)
  also have "\<dots> = take_bit t (drop_bit b N)"
    by (simp add: take_bit_drop_bit)
  finally show ?thesis
    by (simp add: take_bit_eq_mod drop_bit_eq_div)
qed

lemma pad_slice:
  assumes "r \<le> t" "t < 32"
  shows "band (shl (toInt32 N) (int (t - r))) (shl 1 (int t) - 1) = (N mod 2 ^ r) * 2 ^ (t - r)"
proof -
  have s: "t - r < 32" using assms by simp
  have "band (shl (toInt32 N) (int (t - r))) (shl 1 (int t) - 1)
      = take_bit t (toInt32 (push_bit (t - r) (toInt32 N)))"
    by (simp add: band_maxv[OF assms(2)] shl_nat[OF s])
  also have "\<dots> = take_bit t (push_bit (t - r) (toInt32 N))"
    using assms by (simp add: take_bit_toInt32)
  also have "\<dots> = push_bit (t - r) (take_bit r (toInt32 N))"
    using assms by (simp add: take_bit_push_bit)
  also have "\<dots> = push_bit (t - r) (take_bit r N)"
    using assms by (simp add: take_bit_toInt32)
  finally show ?thesis
    by (simp add: take_bit_eq_mod push_bit_eq_mult)
qed

lemma acc_update:
  assumes "f < 32" "0 \<le> v" "v < 2 ^ f"
  shows "bor (shl (toInt32 N) (int f)) v = toInt32 (N * 2 ^ f + v)"
proof -
  have v32: "v < 2 ^ 31"
  proof -
    have "(2::int) ^ f \<le> 2 ^ 31" using assms(1) by (intro power_increasing) simp_all
    with assms(3) show ?thesis by linarith
  qed
  have tv: "toInt32 v = v"
    using assms(2) v32 by (intro toInt32_id) simp_all
  have "take_bit f v = v"
    using assms by (simp add: take_bit_int_eq_self)
  then have "push_bit f N AND v = push_bit f N AND take_bit f v"
    by simp
  also have "\<dots> = 0"
    by (rule bit_eqI) (auto simp: bit_simps)
  finally have "push_bit f N AND v = 0" .
  then have "N * 2 ^ f + v = push_bit f N OR v"
    by (simp add: push_bit_eq_mult disjunctive_add_eq_or)
  then have "toInt32 (N * 2 ^ f + v) = toInt32 (push_bit f N) OR v"
    by (simp add: toInt32_or tv)
  then show ?thesis
    using assms(1) by (simp add: bor_def shl_nat tv push_toInt32)
qed

lemma valid_check:
  assumes "f < 32" "v < 2 ^ 32"
  shows "(v < 0 \<or> sar (toInt32 v) (int f) \<noteq> 0) \<longleftrightarrow> (v < 0 \<or> 2 ^ f \<le> v)"
proof (cases "v < 0")
  case True
  then show ?thesis by simp
next
  case nonneg: False
  have f31: "(2::int) ^ f \<le> 2 ^ 31" using assms(1) by (intro power_increasing) simp_all
  show ?thesis
  proof (cases "v < 2 ^ 31")
    case True
    with nonneg have "toInt32 v = v" by (intro toInt32_id) simp_all
    then have "sar (toInt32 v) (int f) = v div 2 ^ f"
      using assms(1) by (simp add: sar_nat drop_bit_eq_div)
    moreover have "v div 2 ^ f \<noteq> 0 \<longleftrightarrow> 2 ^ f \<le> v"
    proof -
      have "0 < v div 2 ^ f \<longleftrightarrow> 2 ^ f \<le> v"
        by (rule pos_imp_zdiv_pos_iff) simp
      moreover have "0 \<le> v div 2 ^ f"
        using nonneg by (simp add: pos_imp_zdiv_nonneg_iff)
      ultimately show ?thesis by linarith
    qed
    ultimately show ?thesis using nonneg by simp
  next
    case False
    have "toInt32 v = toInt32 (v - 2 ^ 32)"
      by (rule toInt32_cong) (simp add: take_bit_eq_mod)
    also have "\<dots> = v - 2 ^ 32"
      using False assms(2) by (intro toInt32_id) simp_all
    finally have "toInt32 v < 0" using assms(2) by simp
    then have "sar (toInt32 v) (int f) < 0"
      using assms(1) by (simp add: sar_nat)
    moreover have "2 ^ f \<le> v" using False f31 by linarith
    ultimately show ?thesis by simp
  qed
qed

section \<open>Bech32Codec: \<^verbatim>\<open>convertBits\<close> regroups the bits\<close>

lemma feedValues_append:
  "feedValues f t m st (xs @ ys) =
     (case feedValues f t m st xs of
        None \<Rightarrow> None
      | Some None \<Rightarrow> Some None
      | Some (Some st') \<Rightarrow> feedValues f t m st' ys)"
proof (induction xs arbitrary: st)
  case Nil
  show ?case by simp
next
  case (Cons x xs)
  obtain acc bits ret where st: "st = (acc, bits, ret)" by (cases st)
  show ?case
    unfolding st using Cons.IH by (simp add: Let_def split: option.splits prod.splits)
qed

lemma numToInt32_valid:
  assumes "f < 32" "\<not> isNegative v" "numValue v < 2 ^ f"
  shows "numToInt32 v = numValue v"
proof (cases v)
  case NaN
  then show ?thesis by simp
next
  case (Num n)
  have "(2::int) ^ f \<le> 2 ^ 31" using assms(1) by (intro power_increasing) simp_all
  with assms Num have "0 \<le> n" "n < 2 ^ 31" by simp_all
  then show ?thesis using Num by (simp add: toInt32_id)
qed

lemma rejected_iff:
  assumes "f < 32" "numValue v < 2 ^ 32"
  shows "(isNegative v \<or> sar (numToInt32 v) (int f) \<noteq> 0) \<longleftrightarrow> (isNegative v \<or> 2 ^ f \<le> numValue v)"
proof (cases v)
  case NaN
  then show ?thesis by (simp add: sar_def toInt32_def)
next
  case (Num n)
  then show ?thesis using valid_check[OF assms(1), of n] assms(2) by (simp add: sar_def)
qed

lemma concat_div:
  assumes "0 \<le> v" "v < 2 ^ f"
  shows "(N * 2 ^ f + v) div 2 ^ (f + e) = (N::int) div 2 ^ e"
proof -
  have "(N * 2 ^ f + v) div 2 ^ f = N"
    using assms by simp
  then show ?thesis
    by (simp add: power_add zdiv_zmult2_eq)
qed

lemma groupsOf_step:
  assumes "0 < t" "0 \<le> v" "v < 2 ^ f"
  shows "groupsOf (N * 2 ^ f + v) (B + f) t =
     groupsOf N B t @
       map (\<lambda>i. ((N * 2 ^ f + v) div 2 ^ (B mod t + f - (i + 1) * t)) mod 2 ^ t)
         [0..<(B mod t + f) div t]"
proof -
  let ?N' = "N * 2 ^ f + v"
  let ?q = "B div t" and ?k = "(B mod t + f) div t"
  have q: "(B + f) div t = ?q + ?k"
  proof -
    have e: "?q * t + (B mod t + f) = B + f" by simp
    have "(?q * t + (B mod t + f)) div t = ?q + ?k"
      using assms(1) by (simp only: div_mult_self3)
    then show ?thesis by (simp only: e)
  qed
  have upt: "[0..<?q + ?k] = [0..<?q] @ map (\<lambda>i. ?q + i) [0..<?k]"
  proof -
    have "[0..<?q + ?k] = [0..<?q] @ [?q..<?q + ?k]"
      by (rule upt_add_eq_append) simp
    moreover have "map (\<lambda>i. i + ?q) [0..<?k] = [?q..<?k + ?q]"
      by (rule map_add_upt)
    then have "[?q..<?q + ?k] = map (\<lambda>i. ?q + i) [0..<?k]"
      by (simp only: add.commute)
    ultimately show ?thesis by (simp only:)
  qed
  have old: "(?N' div 2 ^ (B + f - (j + 1) * t)) mod 2 ^ t = (N div 2 ^ (B - (j + 1) * t)) mod 2 ^ t"
    if "j < ?q" for j
  proof -
    have "(j + 1) * t \<le> ?q * t" using that by (intro mult_right_mono) simp_all
    also have "\<dots> \<le> B" by simp
    finally have "B + f - (j + 1) * t = f + (B - (j + 1) * t)" by simp
    then show ?thesis by (simp only: concat_div[OF assms(2,3)])
  qed
  have new: "B + f - (?q + i + 1) * t = B mod t + f - (i + 1) * t" for i
  proof -
    have a: "?q * t + (B mod t + f) = B + f" by simp
    have b: "(?q + i + 1) * t = ?q * t + (i + 1) * t" by (simp add: algebra_simps)
    have "(?q * t + (B mod t + f)) - (?q * t + (i + 1) * t) = B mod t + f - (i + 1) * t"
      by (rule add_diff_cancel_left)
    then show ?thesis by (simp only: a b)
  qed
  have "groupsOf ?N' (B + f) t =
      map (\<lambda>j. (?N' div 2 ^ (B + f - (j + 1) * t)) mod 2 ^ t) [0..<?q]
      @ map (\<lambda>i. (?N' div 2 ^ (B + f - (?q + i + 1) * t)) mod 2 ^ t) [0..<?k]"
    unfolding groupsOf_def q upt by (simp add: comp_def)
  also have "map (\<lambda>j. (?N' div 2 ^ (B + f - (j + 1) * t)) mod 2 ^ t) [0..<?q] = groupsOf N B t"
    unfolding groupsOf_def by (rule map_cong[OF refl]) (rule old, simp)
  finally show ?thesis by (simp only: new)
qed

text \<open>One round of the loop on a valid value, from a state that holds the concatenation
  so far.\<close>

lemma feedValues_round:
  assumes w: "0 < f" "0 < t" "f + t \<le> 32"
    and v: "\<not> isNegative v" "numValue v < 2 ^ f"
    and r: "r < t"
  shows "feedValues (int f) (int t) (shl 1 (int t) - 1) (toInt32 N, int r, ret) [v] =
     Some (Some (toInt32 (N * 2 ^ f + numValue v), int ((r + f) mod t),
       ret @ map (\<lambda>i. ((N * 2 ^ f + numValue v) div 2 ^ (r + f - (i + 1) * t)) mod 2 ^ t)
               [0..<(r + f) div t]))"
proof -
  let ?N' = "N * 2 ^ f + numValue v" and ?m = "shl 1 (int t) - 1"
  have f32: "f < 32" and t32: "t < 32" using w by simp_all
  have nn: "0 \<le> numValue v" using v(1) by (cases v) simp_all
  have nv: "numToInt32 v = numValue v" by (rule numToInt32_valid[OF f32 v])
  have "numValue v < 2 ^ 32"
  proof -
    have "(2::int) ^ f \<le> 2 ^ 32" using f32 by (intro power_increasing) simp_all
    with v(2) show ?thesis by linarith
  qed
  then have ok: "\<not> (isNegative v \<or> sar (numToInt32 v) (int f) \<noteq> 0)"
    using rejected_iff[OF f32, of v] v by simp
  have acc: "bor (shl (toInt32 N) (int f)) (numToInt32 v) = toInt32 ?N'"
    unfolding nv by (rule acc_update[OF f32 nn v(2)])
  have slice: "band (sar (toInt32 ?N') (int r + int f - (int i + 1) * int t)) ?m
      = (?N' div 2 ^ (r + f - (i + 1) * t)) mod 2 ^ t" if "i < (r + f) div t" for i
  proof -
    have "(i + 1) * t \<le> ((r + f) div t) * t" using that by (intro mult_right_mono) simp_all
    also have "\<dots> \<le> r + f" by simp
    finally have le: "(i + 1) * t \<le> r + f" .
    then have sh: "int r + int f - (int i + 1) * int t = int (r + f - (i + 1) * t)"
      by (simp add: algebra_simps)
    have "t \<le> (i + 1) * t" by simp
    then have "r + f - (i + 1) * t + t \<le> r + f" using le by linarith
    then have "r + f - (i + 1) * t + t \<le> 32" using r w by linarith
    then show ?thesis
      unfolding sh by (rule group_slice[OF _ w(2) t32])
  qed
  have emit: "emitGroups (toInt32 ?N') (int t) ?m (int r + int f) ret =
      Some (int ((r + f) mod t),
        ret @ map (\<lambda>i. (?N' div 2 ^ (r + f - (i + 1) * t)) mod 2 ^ t) [0..<(r + f) div t])"
  proof -
    have "emitGroups (toInt32 ?N') (int t) ?m (int r + int f) ret =
        Some ((int r + int f) mod int t,
          ret @ map (\<lambda>j. band (sar (toInt32 ?N') (int r + int f - (int j + 1) * int t)) ?m)
                  [0..<nat ((int r + int f) div int t)])"
      using w(2) by (intro emitGroups_closed) simp_all
    moreover have "(int r + int f) mod int t = int ((r + f) mod t)"
      by (simp add: zmod_int)
    moreover have "nat ((int r + int f) div int t) = (r + f) div t"
    proof -
      have "(int r + int f) div int t = int ((r + f) div t)" by (simp add: zdiv_int)
      then show ?thesis by simp
    qed
    moreover have "map (\<lambda>j. band (sar (toInt32 ?N') (int r + int f - (int j + 1) * int t)) ?m)
                  [0..<(r + f) div t]
        = map (\<lambda>i. (?N' div 2 ^ (r + f - (i + 1) * t)) mod 2 ^ t) [0..<(r + f) div t]"
      by (rule map_cong[OF refl]) (rule slice, simp)
    ultimately show ?thesis by simp
  qed
  show ?thesis
    using ok by (simp add: acc emit Let_def)
qed

lemma concatValue_snoc:
  "concatValue f (vs @ [v]) = concatValue f vs * 2 ^ f + v"
  by (simp add: concatValue_def)

lemma feedValues_valid:
  assumes w: "0 < f" "0 < t" "f + t \<le> 32"
  shows "\<forall>v \<in> set data. \<not> isNegative v \<and> numValue v < 2 ^ f \<Longrightarrow>
     feedValues (int f) (int t) (shl 1 (int t) - 1) (0, 0, []) data =
       Some (Some (toInt32 (concatValue f (map numValue data)),
                   int ((f * length data) mod t),
                   groupsOf (concatValue f (map numValue data)) (f * length data) t))"
proof (induction data rule: rev_induct)
  case Nil
  show ?case by (simp add: concatValue_def groupsOf_def toInt32_def)
next
  case (snoc v data)
  let ?N = "concatValue f (map numValue data)" and ?B = "f * length data"
  have v: "\<not> isNegative v" "numValue v < 2 ^ f" using snoc.prems by simp_all
  have nn: "0 \<le> numValue v" using v(1) by (cases v) simp_all
  have IH: "feedValues (int f) (int t) (shl 1 (int t) - 1) (0, 0, []) data =
       Some (Some (toInt32 ?N, int (?B mod t), groupsOf ?N ?B t))"
    using snoc by simp
  have r: "?B mod t < t" using w(2) by simp
  have B': "f * length (data @ [v]) = ?B + f" by simp
  have md: "(?B mod t + f) mod t = (?B + f) mod t" by (simp add: mod_simps)
  show ?case
    unfolding feedValues_append IH
    by (simp only: option.case feedValues_round[OF w v r] map_append list.map
          concatValue_snoc B' md groupsOf_step[OF w(2) nn v(2)])
qed

lemma feedValues_rejects:
  assumes w: "0 < f" "0 < t" "f + t \<le> 32"
    and small: "\<forall>v \<in> set data. numValue v < 2 ^ 32"
    and bad: "list_ex (\<lambda>v. isNegative v \<or> 2 ^ f \<le> numValue v) data"
  shows "feedValues (int f) (int t) (shl 1 (int t) - 1) (0, 0, []) data = Some None"
proof -
  let ?bad = "\<lambda>v. isNegative v \<or> 2 ^ f \<le> numValue v"
  have f32: "f < 32" using w by simp
  from bad have "\<exists>v \<in> set data. ?bad v" by (simp add: list_ex_iff)
  then obtain xs v ys where split: "data = xs @ v # ys" "?bad v" "\<forall>x \<in> set xs. \<not> ?bad x"
    using split_list_first_prop[of data ?bad] by blast
  have "\<forall>x \<in> set xs. \<not> isNegative x \<and> numValue x < 2 ^ f"
    using split(3) by (simp add: not_le)
  note pre = feedValues_valid[OF w this]
  have "numValue v < 2 ^ 32" using small split(1) by simp
  then have "isNegative v \<or> sar (numToInt32 v) (int f) \<noteq> 0"
    using rejected_iff[OF f32, of v] split(2) by simp
  then show ?thesis
    unfolding split(1) feedValues_append pre by simp
qed

lemma convertBits_regroup:
  assumes w: "0 < f" "0 < t" "f + t \<le> 32"
    and small: "\<forall>v \<in> set data. numValue v < 2 ^ 32"
  shows "convertBits data (int f) (int t) pad = Some (convertBits_spec data f t pad)"
proof (cases "list_ex (\<lambda>v. isNegative v \<or> 2 ^ f \<le> numValue v) data")
  case True
  then show ?thesis
    by (simp add: convertBits_def convertBits_spec_def feedValues_rejects[OF w small True])
next
  case False
  let ?N = "concatValue f (map numValue data)" and ?B = "f * length data"
  let ?r = "?B mod t"
  have t32: "t < 32" using w by simp
  have "\<forall>v \<in> set data. \<not> isNegative v \<and> numValue v < 2 ^ f"
    using False by (auto simp: list_ex_iff not_le)
  note run = feedValues_valid[OF w this]
  have r: "?r \<le> t" using w(2) by (simp add: less_imp_le)
  have pad_group: "band (shl (toInt32 ?N) (int t - int ?r)) (shl 1 (int t) - 1)
      = (?N mod 2 ^ ?r) * 2 ^ (t - ?r)"
    using pad_slice[OF r t32, of ?N] r by simp
  have nz: "(?N mod 2 ^ ?r) * 2 ^ (t - ?r) \<noteq> 0 \<longleftrightarrow> ?N mod 2 ^ ?r \<noteq> 0"
    by simp
  show ?thesis
    using False
    by (simp add: convertBits_def convertBits_spec_def run Let_def pad_group nz)
qed

text \<open>
  C7, as the code has it. For widths \<open>f, t \<ge> 1\<close> with \<open>f + t \<le> 32\<close> and values below
  \<open>2^32\<close> (\<^verbatim>\<open>NaN\<close> counts as 0), \<^verbatim>\<open>convertBits\<close> returns, and it returns \<^verbatim>\<open>null\<close>
  exactly when some value is negative or wider than \<open>f\<close> bits, or \<open>pad\<close> is false and
  the leftover bits are non-zero or at least \<open>f\<close> wide; otherwise it returns the
  \<open>t\<close>-bit groups of the concatenated bits, with \<open>pad\<close> followed by the leftover bits
  left-justified and zero-filled.
\<close>

theorem convertBits_null_or_regrouped:
  assumes "0 < f" "0 < t" "f + t \<le> 32"
    and "\<forall>v \<in> set data. numValue v < 2 ^ 32"
  shows "convertBits data (int f) (int t) pad = Some (convertBits_spec data f t pad)
    \<and> (convertBits data (int f) (int t) pad = Some None \<longleftrightarrow>
         list_ex (\<lambda>v. isNegative v \<or> 2 ^ f \<le> numValue v) data
         \<or> \<not> pad \<and> (f \<le> (f * length data) mod t
              \<or> concatValue f (map numValue data) mod 2 ^ ((f * length data) mod t) \<noteq> 0))"
proof -
  have c: "convertBits data (int f) (int t) pad = Some (convertBits_spec data f t pad)"
    by (rule convertBits_regroup[OF assms])
  have "convertBits_spec data f t pad = None \<longleftrightarrow>
         list_ex (\<lambda>v. isNegative v \<or> 2 ^ f \<le> numValue v) data
         \<or> \<not> pad \<and> (f \<le> (f * length data) mod t
              \<or> concatValue f (map numValue data) mod 2 ^ ((f * length data) mod t) \<noteq> 0)"
    by (simp add: convertBits_spec_def Let_def)
  with c show ?thesis by simp
qed

theorem convertBits_null_or_regrouped_witness:
  "(0::nat) < 8 \<and> (0::nat) < 5 \<and> (8::nat) + 5 \<le> 32
   \<and> numValue (Num 255) < 2 ^ 32 \<and> numValue (Num 1) < 2 ^ 32
   \<and> convertBits [Num 255, Num 1] 8 5 True = Some (Some [31, 28, 0, 16])
   \<and> convertBits [Num 255, Num 1] 8 5 False = Some None
   \<and> convertBits [Num 255, Num (-1)] 8 5 True = Some None"
proof -
  have h: "\<forall>v \<in> set [Num 255, Num 1]. numValue v < 2 ^ 32" by simp
  have h': "\<forall>v \<in> set [Num 255, Num (-1)]. numValue v < 2 ^ 32" by simp
  have r: "convertBits_spec [Num 255, Num 1] 8 5 True = Some [31, 28, 0, 16]"
    "convertBits_spec [Num 255, Num 1] 8 5 False = None"
    "convertBits_spec [Num 255, Num (-1)] 8 5 True = None"
    by code_simp+
  from convertBits_null_or_regrouped[of 8 5 "[Num 255, Num 1]" True, OF _ _ _ h]
    convertBits_null_or_regrouped[of 8 5 "[Num 255, Num 1]" False, OF _ _ _ h]
    convertBits_null_or_regrouped[of 8 5 "[Num 255, Num (-1)]" True, OF _ _ _ h'] r
  show ?thesis by simp
qed

text \<open>The claim as worded fails outside that range: \<open>2^32\<close> is wider than 8 bits, but the
  32-bit operators see 0 and the call returns two zero groups.\<close>

theorem convertBits_wide_value_counterexample:
  "\<not> isNegative (Num 4294967296) \<and> (2::int) ^ 8 \<le> numValue (Num 4294967296)
   \<and> convertBits [Num 4294967296] 8 5 True = Some (Some [0, 0])
   \<and> convertBits [Num 4294967296] 8 5 True \<noteq> Some None
   \<and> convertBits_spec [Num 4294967296] 8 5 True = None"
  by code_simp

section \<open>Bech32Codec: \<^verbatim>\<open>hexToBech32Erd\<close>\<close>

lemma hexDigit_range: "isHexDigit c \<Longrightarrow> 0 \<le> the (hexDigit c) \<and> the (hexDigit c) \<le> 15"
  by (auto simp: isHexDigit_def hexDigit_def Let_def split: if_splits)

lemma hexValue_snoc: "hexValue (ds @ [c]) = 16 * hexValue ds + the (hexDigit c)"
  by (simp add: hexValue_def)

lemma hexValue_bounds:
  "list_all isHexDigit ds \<Longrightarrow> 0 \<le> hexValue ds \<and> hexValue ds < 16 ^ length ds"
proof (induction ds rule: rev_induct)
  case Nil
  show ?case by (simp add: hexValue_def)
next
  case (snoc c ds)
  then have IH: "0 \<le> hexValue ds" "hexValue ds < 16 ^ length ds" by simp_all
  from snoc.prems have "isHexDigit c" by simp
  then have d: "0 \<le> the (hexDigit c)" "the (hexDigit c) \<le> 15"
    using hexDigit_range by simp_all
  have "hexValue ds + 1 \<le> 16 ^ length ds" using IH(2) by simp
  then have "16 * (hexValue ds + 1) \<le> 16 * 16 ^ length ds" by (rule mult_left_mono) simp
  with d IH(1) show ?case by (simp add: hexValue_snoc)
qed

lemma length_stripped:
  "length (snd (stripSign s)) \<le> length s" "length (stripHexPrefix s) \<le> length s"
  by (auto simp: stripSign_def stripHexPrefix_def split: list.splits)

lemma stripSign_sign: "fst (stripSign s) = 1 \<or> fst (stripSign s) = - 1"
  by (auto simp: stripSign_def split: list.splits)

lemma parseInt16_small:
  assumes "length s \<le> 2"
  shows "numValue (parseInt16 s) < 256"
proof -
  obtain sign s1 where ss: "stripSign (dropWhile isWhiteSpace s) = (sign, s1)"
    by (cases "stripSign (dropWhile isWhiteSpace s)")
  let ?z = "takeWhile isHexDigit (stripHexPrefix s1)"
  have "length s1 \<le> length (dropWhile isWhiteSpace s)"
    using length_stripped(1)[of "dropWhile isWhiteSpace s"] ss by simp
  also have "\<dots> \<le> length s" by (rule length_dropWhile_le)
  finally have "length (stripHexPrefix s1) \<le> 2"
    using length_stripped(2)[of s1] assms by linarith
  moreover have "length ?z \<le> length (stripHexPrefix s1)" by (rule length_takeWhile_le)
  ultimately have len: "length ?z \<le> 2" by linarith
  have "list_all isHexDigit ?z"
    by (simp add: list_all_iff) (meson set_takeWhileD)
  then have b: "0 \<le> hexValue ?z" "hexValue ?z < 16 ^ length ?z"
    using hexValue_bounds by simp_all
  have "(16::int) ^ length ?z \<le> 16 ^ 2" using len by (intro power_increasing) simp_all
  with b have v: "hexValue ?z < 256" by simp
  have "sign = 1 \<or> sign = - 1" using stripSign_sign[of "dropWhile isWhiteSpace s"] ss by simp
  then have "sign * hexValue ?z < 256" using b(1) v by auto
  then show ?thesis by (simp add: parseInt16_def ss Let_def)
qed

lemma matchChunks_short: "\<forall>ch \<in> set (matchChunks hex). length ch \<le> 2"
  by (induction hex rule: matchChunks.induct) simp_all

lemma hexToBytes_small: "v \<in> set (hexToBytes hex) \<Longrightarrow> numValue v < 256"
  using matchChunks_short[of hex] by (auto simp: hexToBytes_def parseInt16_small)

text \<open>On 32 byte values: \<^verbatim>\<open>null\<close> for a negative entry, else 51 full groups and one
  padded group.\<close>

lemma convertBits_bytes:
  assumes "length bytes = 32" "\<forall>v \<in> set bytes. numValue v < 256"
  shows "convertBits bytes 8 5 True =
     Some (if list_ex isNegative bytes then None
           else Some (groupsOf (concatValue 8 (map numValue bytes)) 256 5
                      @ [(concatValue 8 (map numValue bytes) mod 2) * 16]))"
proof -
  have small: "\<forall>v \<in> set bytes. numValue v < 2 ^ 32"
    using assms(2) by fastforce
  have "list_ex (\<lambda>v. isNegative v \<or> 2 ^ 8 \<le> numValue v) bytes = list_ex isNegative bytes"
    using assms(2) by (fastforce simp: list_ex_iff)
  then have "convertBits_spec bytes 8 5 True =
     (if list_ex isNegative bytes then None
      else Some (groupsOf (concatValue 8 (map numValue bytes)) 256 5
                 @ [(concatValue 8 (map numValue bytes) mod 2) * 16]))"
    by (simp add: convertBits_spec_def assms(1) Let_def)
  then show ?thesis
    using convertBits_regroup[of 8 5 bytes True, OF _ _ _ small] by simp
qed

lemma length_groupsOf: "length (groupsOf N B t) = B div t"
  by (simp add: groupsOf_def)

lemma groupsOf_range: "d \<in> set (groupsOf N B t) \<Longrightarrow> 0 \<le> d \<and> d < 2 ^ t"
  by (auto simp: groupsOf_def)

lemma band31_range: "0 \<le> band x 31 \<and> band x 31 < 32"
proof -
  have "band x 31 = take_bit 5 x"
    using band_maxv[of 5 x] by (simp add: shl_def toInt32_def)
  then show ?thesis
    using take_bit_int_less_exp[of 5 x] by simp
qed

lemma checksum_shape:
  "length (bech32CreateChecksum hrp data) = 6"
  "d \<in> set (bech32CreateChecksum hrp data) \<Longrightarrow> 0 \<le> d \<and> d < 32"
  using band31_range by (auto simp: bech32CreateChecksum_def Let_def)

lemma alphabet_symbols:
  "\<forall>d \<in> set ds. 0 \<le> d \<and> d < 32 \<Longrightarrow>
     concat (map alphabetAt ds) = map (\<lambda>d. BECH32_ALPHABET ! nat d) ds"
  by (induction ds) (simp_all add: alphabetAt_def)

lemma alphabet_member: "0 \<le> d \<Longrightarrow> d < 32 \<Longrightarrow> BECH32_ALPHABET ! nat d \<in> set BECH32_ALPHABET"
  by (rule nth_mem) (simp add: BECH32_ALPHABET_def)

lemma fiveOf_shape:
  "length (fiveOf bytes) = 52" "d \<in> set (fiveOf bytes) \<Longrightarrow> 0 \<le> d \<and> d < 32"
proof -
  show "length (fiveOf bytes) = 52" by (simp add: fiveOf_def length_groupsOf)
  have "0 \<le> d \<and> d < 32" if "d = (N mod 2) * 16" for N :: int
  proof -
    have "0 \<le> N mod 2" "N mod 2 < 2" by simp_all
    with that show ?thesis by linarith
  qed
  then show "d \<in> set (fiveOf bytes) \<Longrightarrow> 0 \<le> d \<and> d < 32"
    using groupsOf_range[of d _ 256 5] by (auto simp: fiveOf_def)
qed

lemma hexToBech32Erd_cases:
  "hexToBech32Erd h =
     Some (case h of
             None \<Rightarrow> None
           | Some x \<Rightarrow>
               if x = [] \<or> length (hexToBytes x) \<noteq> 32 \<or> list_ex isNegative (hexToBytes x)
               then None
               else Some (''erd1'' @ map (\<lambda>d. BECH32_ALPHABET ! nat d)
                            (fiveOf (hexToBytes x) @ bech32CreateChecksum ''erd'' (fiveOf (hexToBytes x)))))"
proof (cases h)
  case None
  then show ?thesis by (simp add: hexToBech32Erd_def)
next
  case (Some x)
  show ?thesis
  proof (cases "x = [] \<or> length (hexToBytes x) \<noteq> 32")
    case True
    then show ?thesis by (auto simp: hexToBech32Erd_def Some Let_def)
  next
    case False
    then have len: "length (hexToBytes x) = 32" and ne: "x \<noteq> []" by simp_all
    have cb: "convertBits (hexToBytes x) 8 5 True =
        Some (if list_ex isNegative (hexToBytes x) then None else Some (fiveOf (hexToBytes x)))"
      unfolding fiveOf_def
      by (rule convertBits_bytes[OF len]) (simp add: hexToBytes_small)
    let ?five = "fiveOf (hexToBytes x)"
    have "\<forall>d \<in> set (?five @ bech32CreateChecksum ''erd'' ?five). 0 \<le> d \<and> d < 32"
      using fiveOf_shape(2) checksum_shape(2) by auto
    then have enc: "bech32Encode ''erd'' (Some ?five) =
        Inr (''erd1'' @ map (\<lambda>d. BECH32_ALPHABET ! nat d) (?five @ bech32CreateChecksum ''erd'' ?five))"
      by (simp add: bech32Encode_def Let_def alphabet_symbols)
    have nul: "bech32Encode ''erd'' None = Inl TypeError"
      by (simp add: bech32Encode_def)
    show ?thesis
      unfolding hexToBech32Erd_def Some
      using len ne by (simp add: cb enc nul Let_def)
  qed
qed

lemma hexToBytes_hex64:
  assumes "length x = 64" "list_all isHexDigit x"
  shows "length (hexToBytes x) = 32" "\<not> list_ex isNegative (hexToBytes x)" "x \<noteq> []"
proof -
  have eq: "hexToBytes x = map (\<lambda>ch. Num (hexValue ch)) (pairsFromLeft x)"
    by (rule hexToBytes_digits[OF assms(2)])
  show "length (hexToBytes x) = 32"
    by (simp add: eq length_pairsFromLeft assms(1))
  have "list_all isHexDigit ch" if "ch \<in> set (pairsFromLeft y)" "list_all isHexDigit y" for ch y
    using that by (induction y rule: pairsFromLeft.induct) auto
  then have "\<not> hexValue ch < 0" if "ch \<in> set (pairsFromLeft x)" for ch
    using that assms(2) hexValue_bounds[of ch] by (simp add: not_less)
  then show "\<not> list_ex isNegative (hexToBytes x)"
    by (auto simp: eq list_ex_iff)
  show "x \<noteq> []" using assms(1) by auto
qed

text \<open>
  C10. For every input of exactly 64 hex digits \<^verbatim>\<open>hexToBech32Erd\<close> succeeds:
  \<^verbatim>\<open>convertBits\<close> yields exactly 52 groups, the checksum has 6 symbols, all 58
  symbols index the 32-character alphabet, and the result is "erd1" followed by their
  58 characters: 62 characters in all.
\<close>

theorem hexToBech32Erd_hex64:
  assumes "length x = 64" "list_all isHexDigit x"
  shows "\<exists>s five chk.
      hexToBech32Erd (Some x) = Some (Some s)
    \<and> convertBits (hexToBytes x) 8 5 True = Some (Some five)
    \<and> chk = bech32CreateChecksum ''erd'' five
    \<and> length five = 52 \<and> length chk = 6
    \<and> list_all (\<lambda>d. 0 \<le> d \<and> d < 32) (five @ chk)
    \<and> s = ''erd1'' @ map (\<lambda>d. BECH32_ALPHABET ! nat d) (five @ chk)
    \<and> length s = 62
    \<and> set (drop 4 s) \<subseteq> set BECH32_ALPHABET
    \<and> length BECH32_ALPHABET = 32"
proof -
  let ?bytes = "hexToBytes x"
  let ?five = "fiveOf ?bytes"
  let ?chk = "bech32CreateChecksum ''erd'' ?five"
  let ?s = "''erd1'' @ map (\<lambda>d. BECH32_ALPHABET ! nat d) (?five @ ?chk)"
  note b = hexToBytes_hex64[OF assms]
  have r: "hexToBech32Erd (Some x) = Some (Some ?s)"
    using b by (simp add: hexToBech32Erd_cases)
  have cb: "convertBits ?bytes 8 5 True = Some (Some ?five)"
    using convertBits_bytes[OF b(1)] b(2) by (simp add: hexToBytes_small fiveOf_def)
  have rng: "list_all (\<lambda>d. 0 \<le> d \<and> d < 32) (?five @ ?chk)"
    using fiveOf_shape(2) checksum_shape(2) by (auto simp: list_all_iff)
  have len: "length ?s = 62"
    by (simp add: fiveOf_shape(1) checksum_shape(1))
  have "set (map (\<lambda>d. BECH32_ALPHABET ! nat d) (?five @ ?chk)) \<subseteq> set BECH32_ALPHABET"
    using rng alphabet_member by (auto simp: list_all_iff)
  then have sub: "set (drop 4 ?s) \<subseteq> set BECH32_ALPHABET" by simp
  have al: "length BECH32_ALPHABET = 32" by (simp add: BECH32_ALPHABET_def)
  from r cb rng len sub al fiveOf_shape(1)[of ?bytes] checksum_shape(1)[of "''erd''" ?five]
  show ?thesis by blast
qed

theorem hexToBech32Erd_hex64_witness:
  "length ''0000000000000000000000000000000000000000000000000000000000000000'' = 64
   \<and> list_all isHexDigit ''0000000000000000000000000000000000000000000000000000000000000000''
   \<and> (\<exists>s. hexToBech32Erd (Some ''0000000000000000000000000000000000000000000000000000000000000000'')
              = Some (Some s)
          \<and> length s = 62 \<and> set (drop 4 s) \<subseteq> set BECH32_ALPHABET)"
proof -
  let ?x = "''0000000000000000000000000000000000000000000000000000000000000000''"
  have l: "length ?x = 64" by simp
  have d: "list_all isHexDigit ?x" by code_simp
  from hexToBech32Erd_hex64[OF l d] l d show ?thesis by blast
qed

text \<open>
  When the function gives up. \<^verbatim>\<open>hexToBech32Erd\<close> always returns and never raises. It
  returns \<^verbatim>\<open>undefined\<close> exactly when the input is absent or empty, does not split
  into exactly 32 chunks, or has a chunk that parses to a negative number (then
  \<^verbatim>\<open>convertBits\<close> returns \<^verbatim>\<open>null\<close>, the encoder raises and the handler catches).
  A chunk that parses to \<^verbatim>\<open>NaN\<close> is not among these cases.
\<close>

lemma hexToBech32Erd_undefined_cases:
  "(\<exists>r. hexToBech32Erd h = Some r)
   \<and> (hexToBech32Erd h = Some None \<longleftrightarrow>
        (case h of
           None \<Rightarrow> True
         | Some y \<Rightarrow> y = [] \<or> length (hexToBytes y) \<noteq> 32 \<or> list_ex isNegative (hexToBytes y)))"
  by (simp add: hexToBech32Erd_cases split: option.splits)

lemma hexToBech32Erd_zero_bytes:
  "hexToBech32Erd (Some ''0000000000000000000000000000000000000000000000000000000000000000'')
     = Some (Some ''erd1qqqqqqqqqqqqqqqqqqqqqqqqqqqqqqqqqqqqqqqqqqqqqqqqqqqq6gq4hu'')"
  by code_simp

text \<open>
  C4. As specified, \<^verbatim>\<open>hexToBech32Erd\<close> never raises, returns the encoded address
  exactly when the input decodes to 32 bytes, and signals failure (\<^verbatim>\<open>undefined\<close>) on
  a wrong length and on unparsable hex, so for every 64-character input with non-hex
  characters. The code breaks the last part: 64 characters none of which is a hex digit
  are not rejected but encoded, as the address of 32 zero bytes. Every chunk parses to
  \<^verbatim>\<open>NaN\<close>, which passes the test \<^verbatim>\<open>value < 0 || value >> from\<close> of
  \<^verbatim>\<open>convertBits\<close> and counts as 0. The code does signal failure for other input that
  does not decode: too few chunks, and a chunk \<^verbatim>\<open>-1\<close>; and \<^verbatim>\<open>hexToBigInt\<close> rejects
  the same text (\<^verbatim>\<open>BigInt\<close> raises, the handler returns its fallback \<^verbatim>\<open>0n\<close>).
\<close>

theorem hexToBech32Erd_non_hex_not_rejected:
  "length ''zzzzzzzzzzzzzzzzzzzzzzzzzzzzzzzzzzzzzzzzzzzzzzzzzzzzzzzzzzzzzzzz'' = 64
   \<and> \<not> list_ex isHexDigit ''zzzzzzzzzzzzzzzzzzzzzzzzzzzzzzzzzzzzzzzzzzzzzzzzzzzzzzzzzzzzzzzz''
   \<and> hexToBech32Erd (Some ''zzzzzzzzzzzzzzzzzzzzzzzzzzzzzzzzzzzzzzzzzzzzzzzzzzzzzzzzzzzzzzzz'')
       = Some (Some ''erd1qqqqqqqqqqqqqqqqqqqqqqqqqqqqqqqqqqqqqqqqqqqqqqqqqqqq6gq4hu'')
   \<and> hexToBech32Erd (Some ''zzzzzzzzzzzzzzzzzzzzzzzzzzzzzzzzzzzzzzzzzzzzzzzzzzzzzzzzzzzzzzzz'')
       = hexToBech32Erd (Some ''0000000000000000000000000000000000000000000000000000000000000000'')
   \<and> hexToBech32Erd (Some ''zzzzzzzzzzzzzzzzzzzzzzzzzzzzzzzzzzzzzzzzzzzzzzzzzzzzzzzzzzzzzzzz'')
       \<noteq> Some None
   \<and> hexToBech32Erd (Some ''-100000000000000000000000000000000000000000000000000000000000000'')
       = Some None
   \<and> hexToBech32Erd (Some ''zz'') = Some None
   \<and> bigIntOfHexLiteral ''zzzzzzzzzzzzzzzzzzzzzzzzzzzzzzzzzzzzzzzzzzzzzzzzzzzzzzzzzzzzzzzz''
       = Inl SyntaxError
   \<and> hexToBigInt (Some ''zzzzzzzzzzzzzzzzzzzzzzzzzzzzzzzzzzzzzzzzzzzzzzzzzzzzzzzzzzzzzzzz'') = 0"
  by code_simp

section \<open>Bech32Codec: the checksum register\<close>

lemma xor_cancel_right: "a XOR x = b XOR x \<Longrightarrow> a = (b::int)"
proof -
  assume "a XOR x = b XOR x"
  then have "(a XOR x) XOR x = (b XOR x) XOR x" by simp
  then show "a = b" by (simp add: xor.assoc)
qed

lemma xor_cancel_left: "x XOR a = x XOR b \<Longrightarrow> a = (b::int)"
  using xor_cancel_right[of a x b] by (simp add: xor.commute)

lemma xor_range:
  assumes "0 \<le> x" "x < 2 ^ n" "0 \<le> y" "y < 2 ^ n"
  shows "0 \<le> x XOR y \<and> x XOR y < (2::int) ^ n"
  using assms by (simp add: XOR_upper)

lemma bxor_fits:
  assumes "0 \<le> x" "x < 2 ^ 30" "0 \<le> y" "y < 2 ^ 30"
  shows "bxor x y = x XOR y"
  using assms by (simp add: bxor_def toInt32_id)

lemma generator_range: "i < 5 \<Longrightarrow> 0 \<le> GENERATORS ! i \<and> GENERATORS ! i < 2 ^ 30"
proof -
  have "list_all (\<lambda>g. 0 \<le> g \<and> g < 2 ^ 30) GENERATORS"
    by (simp add: GENERATORS_def)
  moreover have "length GENERATORS = 5" by (simp add: GENERATORS_def)
  ultimately show "i < 5 \<Longrightarrow> 0 \<le> GENERATORS ! i \<and> GENERATORS ! i < 2 ^ 30"
    by (simp add: list_all_length)
qed

lemma top_bit_test:
  assumes "0 \<le> b" "b < 32" "i < 5"
  shows "band (sar b (int i)) 1 \<noteq> 0 \<longleftrightarrow> bit b i"
proof -
  have tb: "toInt32 b = b" using assms by (intro toInt32_id) simp_all
  have one: "shl 1 (int 1) - 1 = 1" by (simp add: shl_def toInt32_def)
  have s: "sar b (int i) = drop_bit i b"
    using assms(3) by (simp add: sar_nat tb)
  have "band (sar b (int i)) 1 = take_bit 1 (sar b (int i))"
    using band_maxv[of 1 "sar b (int i)"] by (simp only: one) 
  then have "band (sar b (int i)) 1 = drop_bit i b mod 2"
    by (simp add: s take_bit_eq_mod)
  then show ?thesis
    by (simp add: bit_iff_odd_drop_bit odd_iff_mod_2_eq_one)
qed

text \<open>The inner \<^verbatim>\<open>for (let i = 0; i < 5; i++)\<close> loop of \<^verbatim>\<open>bech32Polymod\<close> on a
  register that fits 30 bits.\<close>

lemma generators_loop:
  assumes b: "0 \<le> b" "b < 32"
  shows "\<forall>i \<in> set is. i < 5 \<Longrightarrow> 0 \<le> c \<Longrightarrow> c < 2 ^ 30 \<Longrightarrow>
     foldl (\<lambda>c i. if band (sar b (int i)) 1 \<noteq> 0 then bxor c (GENERATORS ! i) else c) c is
       = foldl (\<lambda>c i. if bit b i then c XOR GENERATORS ! i else c) c is
     \<and> 0 \<le> foldl (\<lambda>c i. if bit b i then c XOR GENERATORS ! i else c) c is
     \<and> foldl (\<lambda>c i. if bit b i then c XOR GENERATORS ! i else c) c is < 2 ^ 30"
proof (induction "is" arbitrary: c)
  case Nil
  then show ?case by simp
next
  case (Cons i "is")
  have i: "i < 5" using Cons.prems(1) by simp
  let ?c' = "if bit b i then c XOR GENERATORS ! i else c"
  have step: "(if band (sar b (int i)) 1 \<noteq> 0 then bxor c (GENERATORS ! i) else c) = ?c'"
    using top_bit_test[OF b i] generator_range[OF i] Cons.prems(2,3) by (simp add: bxor_fits)
  have r: "0 \<le> ?c'" "?c' < 2 ^ 30"
    using xor_range[of c 30 "GENERATORS ! i"] generator_range[OF i] Cons.prems(2,3) by simp_all
  have "\<forall>i \<in> set is. i < 5" using Cons.prems(1) by simp
  from Cons.IH[OF this r] show ?case
    by (simp only: foldl_Cons step) 
qed

lemma xor_loop:
  "foldl (\<lambda>c i. if bit b i then c XOR GENERATORS ! i else c) (a::int) is
     = a XOR foldl (\<lambda>c i. if bit b i then c XOR GENERATORS ! i else c) 0 is"
proof (induction "is" arbitrary: a)
  case Nil
  show ?case by simp
next
  case (Cons i "is")
  let ?g = "\<lambda>c i. if bit b i then c XOR GENERATORS ! i else (c::int)"
  have "foldl ?g a (i # is) = foldl ?g (?g a i) is" by simp
  also have "\<dots> = ?g a i XOR foldl ?g 0 is" by (rule Cons.IH)
  also have "?g a i = a XOR ?g 0 i" by simp
  also have "(a XOR ?g 0 i) XOR foldl ?g 0 is = a XOR (?g 0 i XOR foldl ?g 0 is)"
    by (rule xor.assoc)
  also have "?g 0 i XOR foldl ?g 0 is = foldl ?g (?g 0 i) is" by (rule Cons.IH[symmetric])
  also have "\<dots> = foldl ?g 0 (i # is)" by simp
  finally show ?case .
qed

lemma genXor_range: "0 \<le> b \<Longrightarrow> b < 32 \<Longrightarrow> 0 \<le> genXor b \<and> genXor b < 2 ^ 30"
  using generators_loop[of b "[0..<5]" 0] by (simp add: genXor_def)

text \<open>One round on a register below \<open>2^30\<close> and a 5-bit symbol: shift the low 25 bits
  up by five, add the symbol, fold in the generators of the top five bits.\<close>

lemma polymodStep_fits:
  assumes c: "0 \<le> c" "c < 2 ^ 30" and v: "0 \<le> v" "v < 32"
  shows "polymodStep c v = push_bit 5 (take_bit 25 c) XOR v XOR genXor (drop_bit 25 c)"
    and "0 \<le> polymodStep c v" and "polymodStep c v < 2 ^ 30"
proof -
  let ?b = "drop_bit 25 c" and ?p = "push_bit 5 (take_bit 25 c)"
  have tc: "toInt32 c = c" using c by (intro toInt32_id) simp_all
  have b: "0 \<le> ?b" "?b < 32"
    using c by (simp_all add: drop_bit_eq_div)
  have sar: "sar c 25 = ?b"
    using sar_nat[of 25 c] by (simp add: tc)
  have "(0x1ffffff::int) = mask 25" by (simp add: mask_eq_exp_minus_1)
  then have low: "band c 0x1ffffff = take_bit 25 c"
    by (simp add: band_def tc toInt32_id take_bit_eq_mask)
  have p: "0 \<le> ?p" "?p < 2 ^ 30"
  proof -
    have "take_bit 25 c < 2 ^ 25" by (rule take_bit_int_less_exp)
    then have "take_bit 25 c * 2 ^ 5 < 2 ^ 25 * 2 ^ 5" by (rule mult_strict_right_mono) simp
    then show "?p < 2 ^ 30" by (simp add: push_bit_eq_mult)
    show "0 \<le> ?p" by simp
  qed
  have "toInt32 ?p = ?p"
  proof (rule toInt32_id)
    have "- (2 ^ 31) \<le> (0::int)" by simp
    then show "- (2 ^ 31) \<le> ?p" using p(1) by (rule order_trans)
    have "(2::int) ^ 30 \<le> 2 ^ 31" by simp
    with p(2) show "?p < 2 ^ 31" by (rule less_le_trans)
  qed
  then have shl: "shl (take_bit 25 c) 5 = ?p"
    using shl_nat[of 5 "take_bit 25 c"] by simp
  have v30: "v < 2 ^ 30" using v by simp
  have c1: "bxor ?p v = ?p XOR v" "0 \<le> ?p XOR v" "?p XOR v < 2 ^ 30"
    using bxor_fits[OF p v(1) v30] xor_range[OF p v(1) v30] by simp_all
  have up: "\<forall>i \<in> set [0..<5]. i < 5" by simp
  note loop = generators_loop[OF b up c1(2,3)]
  have "polymodStep c v = foldl (\<lambda>c i. if bit ?b i then c XOR GENERATORS ! i else c) (?p XOR v) [0..<5]"
    unfolding polymodStep_def sar low shl Let_def c1(1) using loop by simp
  also have "\<dots> = (?p XOR v) XOR genXor ?b"
    unfolding genXor_def by (rule xor_loop)
  finally show "polymodStep c v = ?p XOR v XOR genXor ?b"
    by (simp add: xor.assoc)
  with xor_range[OF c1(2,3), of "genXor ?b"] genXor_range[OF b]
  show "0 \<le> polymodStep c v" "polymodStep c v < 2 ^ 30"
    by (simp_all add: xor.assoc)
qed

lemma genXor_low_injective:
  assumes "0 \<le> b" "b < 32" "0 \<le> b'" "b' < 32"
    and "take_bit 5 (genXor b) = take_bit 5 (genXor b')"
  shows "b = b'"
proof -
  let ?tbl = "[0, 17, 11, 26, 22, 7, 29, 12, 5, 20, 14, 31, 19, 2, 24, 9,
               10, 27, 1, 16, 28, 13, 23, 6, 15, 30, 4, 21, 25, 8, 18, 3 :: int]"
  have all: "list_all (\<lambda>k. ?tbl ! nat (take_bit 5 (genXor (int k))) = int k) [0..<32]"
    by code_simp
  have inv: "?tbl ! nat (take_bit 5 (genXor x)) = x" if "0 \<le> x" "x < 32" for x
  proof -
    have mem: "nat x \<in> set [0..<32]" using that by simp
    from all have "\<forall>k \<in> set [0..<32]. ?tbl ! nat (take_bit 5 (genXor (int k))) = int k"
      by (simp only: list_all_iff)
    from bspec[OF this mem] have "?tbl ! nat (take_bit 5 (genXor (int (nat x)))) = int (nat x)" .
    moreover have "int (nat x) = x" using that by simp
    ultimately show ?thesis by (simp only:)
  qed
  have "b = ?tbl ! nat (take_bit 5 (genXor b))"
    by (rule inv[OF assms(1,2), symmetric])
  also have "\<dots> = ?tbl ! nat (take_bit 5 (genXor b'))"
    by (simp only: assms(5))
  also have "\<dots> = b'"
    by (rule inv[OF assms(3,4)])
  finally show ?thesis .
qed

lemma polymodStep_injective:
  assumes c: "0 \<le> c" "c < 2 ^ 30" and c': "0 \<le> c'" "c' < 2 ^ 30" and v: "0 \<le> v" "v < 32"
    and eq: "polymodStep c v = polymodStep c' v"
  shows "c = c'"
proof -
  let ?b = "drop_bit 25 c" and ?b' = "drop_bit 25 c'"
  let ?p = "push_bit 5 (take_bit 25 c)" and ?p' = "push_bit 5 (take_bit 25 c')"
  have b: "0 \<le> ?b" "?b < 32" "0 \<le> ?b'" "?b' < 32"
    using c c' by (simp_all add: drop_bit_eq_div)
  have e: "?p XOR v XOR genXor ?b = ?p' XOR v XOR genXor ?b'"
    using eq polymodStep_fits(1)[OF c v] polymodStep_fits(1)[OF c' v] by simp
  then have "take_bit 5 (?p XOR v XOR genXor ?b) = take_bit 5 (?p' XOR v XOR genXor ?b')"
    by (rule arg_cong)
  then have "take_bit 5 v XOR take_bit 5 (genXor ?b) = take_bit 5 v XOR take_bit 5 (genXor ?b')"
    by (simp only: take_bit_xor take_bit_push_bit diff_self_eq_0 take_bit_0 push_bit_of_0
          xor.left_neutral)
  then have "take_bit 5 (genXor ?b) = take_bit 5 (genXor ?b')"
    by (rule xor_cancel_left)
  then have bb: "?b = ?b'" by (rule genXor_low_injective[OF b])
  from e have "?p XOR (v XOR genXor ?b) = ?p' XOR (v XOR genXor ?b)"
    by (simp only: bb)
  then have "?p = ?p'" by (rule xor_cancel_right)
  then have tk: "take_bit 25 c = take_bit 25 c'"
    by (simp add: push_bit_eq_mult)
  have "c = push_bit 25 ?b + take_bit 25 c" by (rule bits_ident[symmetric])
  also have "\<dots> = push_bit 25 ?b' + take_bit 25 c'" by (simp only: bb tk)
  also have "\<dots> = c'" by (rule bits_ident)
  finally show ?thesis .
qed

lemma polymodStep_symbol:
  assumes c: "0 \<le> c" "c < 2 ^ 30" and v: "0 \<le> v" "v < 32" and v': "0 \<le> v'" "v' < 32"
    and ne: "v \<noteq> v'"
  shows "polymodStep c v \<noteq> polymodStep c v'"
proof
  assume "polymodStep c v = polymodStep c v'"
  then have "push_bit 5 (take_bit 25 c) XOR (v XOR genXor (drop_bit 25 c))
      = push_bit 5 (take_bit 25 c) XOR (v' XOR genXor (drop_bit 25 c))"
    using polymodStep_fits(1)[OF c v] polymodStep_fits(1)[OF c v'] by simp
  then have "v XOR genXor (drop_bit 25 c) = v' XOR genXor (drop_bit 25 c)"
    by (rule xor_cancel_left)
  then have "v = v'" by (rule xor_cancel_right)
  with ne show False by simp
qed

lemma polymod_fits:
  "\<forall>v \<in> set vs. 0 \<le> v \<and> v < 32 \<Longrightarrow> 0 \<le> c \<Longrightarrow> c < 2 ^ 30 \<Longrightarrow>
     0 \<le> foldl polymodStep c vs \<and> foldl polymodStep c vs < 2 ^ 30"
proof (induction vs arbitrary: c)
  case Nil
  then show ?case by simp
next
  case (Cons v vs)
  have v: "0 \<le> v" "v < 32" using Cons.prems(1) by simp_all
  have "\<forall>v \<in> set vs. 0 \<le> v \<and> v < 32" using Cons.prems(1) by simp
  from Cons.IH[OF this polymodStep_fits(2,3)[OF Cons.prems(2,3) v]]
  show ?case by simp
qed

lemma polymod_keeps_apart:
  "\<forall>v \<in> set vs. 0 \<le> v \<and> v < 32 \<Longrightarrow> 0 \<le> c \<Longrightarrow> c < 2 ^ 30 \<Longrightarrow> 0 \<le> c' \<Longrightarrow> c' < 2 ^ 30 \<Longrightarrow>
     c \<noteq> c' \<Longrightarrow> foldl polymodStep c vs \<noteq> foldl polymodStep c' vs"
proof (induction vs arbitrary: c c')
  case Nil
  then show ?case by simp
next
  case (Cons v vs)
  have v: "0 \<le> v" "v < 32" using Cons.prems(1) by simp_all
  have rest: "\<forall>v \<in> set vs. 0 \<le> v \<and> v < 32" using Cons.prems(1) by simp
  have "polymodStep c v \<noteq> polymodStep c' v"
    using polymodStep_injective[OF Cons.prems(2,3) Cons.prems(4,5) v] Cons.prems(6) by blast
  from Cons.IH[OF rest polymodStep_fits(2,3)[OF Cons.prems(2,3) v]
      polymodStep_fits(2,3)[OF Cons.prems(4,5) v] this]
  show ?case by simp
qed

lemma hrpExpand_range: "v \<in> set (bech32HrpExpand hrp) \<Longrightarrow> 0 \<le> v \<and> v < 32"
proof -
  have hi: "0 \<le> sar (charCode c) 5 \<and> sar (charCode c) 5 < 32" for c
  proof -
    have "charCode c = int (of_char c)" by (simp add: charCode_def of_nat_of_char)
    then have r: "0 \<le> charCode c" "charCode c < 256"
      using nat_of_char_less_256[of c] by linarith+
    then have "toInt32 (charCode c) = charCode c" by (intro toInt32_id) simp_all
    then have "sar (charCode c) 5 = charCode c div 32"
      using sar_nat[of 5 "charCode c"] by (simp add: drop_bit_eq_div)
    moreover have "0 \<le> charCode c div 32" "charCode c div 32 < 32"
      using r by linarith+
    ultimately show ?thesis by simp
  qed
  assume "v \<in> set (bech32HrpExpand hrp)"
  then show ?thesis
    using hi band31_range by (auto simp: bech32HrpExpand_def)
qed

lemma drop_bit_descend:
  assumes "drop_bit (k + 5) m = drop_bit (k + 5) m'"
    and "take_bit 5 (drop_bit k m) = take_bit 5 (drop_bit k m')"
  shows "drop_bit k m = drop_bit k (m'::int)"
proof -
  have d: "drop_bit 5 (drop_bit k x) = drop_bit (k + 5) x" for x :: int
    by (simp add: add.commute)
  have "drop_bit k m = push_bit 5 (drop_bit 5 (drop_bit k m)) + take_bit 5 (drop_bit k m)"
    by (rule bits_ident[symmetric])
  also have "\<dots> = push_bit 5 (drop_bit 5 (drop_bit k m')) + take_bit 5 (drop_bit k m')"
    by (simp only: d assms)
  also have "\<dots> = drop_bit k m'"
    by (rule bits_ident)
  finally show ?thesis .
qed

text \<open>The six 5-bit symbols cut from a 30-bit value determine it.\<close>

lemma symbols_determine:
  assumes m: "0 \<le> m" "m < 2 ^ 30" and m': "0 \<le> m'" "m' < 2 ^ 30"
    and eq: "map (\<lambda>p. band (sar m (5 * (5 - p))) 31) [0, 1, 2, 3, 4, 5]
           = map (\<lambda>p. band (sar m' (5 * (5 - p))) 31) [0, 1, 2, 3, 4, 5]"
  shows "m = m'"
proof -
  have slice: "band (sar x (int k)) 31 = take_bit 5 (drop_bit k x)"
    if "0 \<le> x" "x < 2 ^ 30" "k < 32" for x k
  proof -
    have "toInt32 x = x" using that by (intro toInt32_id) simp_all
    then have "sar x (int k) = drop_bit k x" using that(3) by (simp add: sar_nat)
    moreover have "band y 31 = take_bit 5 y" for y
      using band_maxv[of 5 y] by (simp add: shl_def toInt32_def)
    ultimately show ?thesis by simp
  qed
  have g: "take_bit 5 (drop_bit 25 m) = take_bit 5 (drop_bit 25 m')"
      "take_bit 5 (drop_bit 20 m) = take_bit 5 (drop_bit 20 m')"
      "take_bit 5 (drop_bit 15 m) = take_bit 5 (drop_bit 15 m')"
      "take_bit 5 (drop_bit 10 m) = take_bit 5 (drop_bit 10 m')"
      "take_bit 5 (drop_bit 5 m) = take_bit 5 (drop_bit 5 m')"
      "take_bit 5 (drop_bit 0 m) = take_bit 5 (drop_bit 0 m')"
    using eq slice[OF m, of 25] slice[OF m, of 20] slice[OF m, of 15] slice[OF m, of 10]
      slice[OF m, of 5] slice[OF m, of 0]
      slice[OF m', of 25] slice[OF m', of 20] slice[OF m', of 15] slice[OF m', of 10]
      slice[OF m', of 5] slice[OF m', of 0]
    by simp_all
  have "drop_bit 30 m = 0" "drop_bit 30 m' = 0"
    using m m' by (simp_all add: drop_bit_eq_div)
  then have "drop_bit (25 + 5) m = drop_bit (25 + 5) m'" by simp
  from drop_bit_descend[OF this g(1)] have "drop_bit (20 + 5) m = drop_bit (20 + 5) m'" by simp
  from drop_bit_descend[OF this g(2)] have "drop_bit (15 + 5) m = drop_bit (15 + 5) m'" by simp
  from drop_bit_descend[OF this g(3)] have "drop_bit (10 + 5) m = drop_bit (10 + 5) m'" by simp
  from drop_bit_descend[OF this g(4)] have "drop_bit (5 + 5) m = drop_bit (5 + 5) m'" by simp
  from drop_bit_descend[OF this g(5)] have "drop_bit (0 + 5) m = drop_bit (0 + 5) m'" by simp
  from drop_bit_descend[OF this g(6)] show ?thesis by simp
qed

lemma checksum_symbol_change:
  assumes data: "\<forall>d \<in> set data. 0 \<le> d \<and> d < 32" and i: "i < length data"
    and x: "0 \<le> x" "x < 32" "x \<noteq> data ! i"
  shows "bech32CreateChecksum hrp (data[i := x]) \<noteq> bech32CreateChecksum hrp data"
proof -
  let ?pre = "bech32HrpExpand hrp @ take i data"
  let ?post = "drop (Suc i) data @ [0, 0, 0, 0, 0, 0]"
  let ?d = "data ! i"
  have d: "0 \<le> ?d" "?d < 32" using data i by simp_all
  have pre: "\<forall>v \<in> set ?pre. 0 \<le> v \<and> v < 32"
    using hrpExpand_range data by (auto dest: in_set_takeD)
  have post: "\<forall>v \<in> set ?post. 0 \<le> v \<and> v < 32"
    using data by (auto dest: in_set_dropD)
  have one: "(0::int) \<le> 1" "(1::int) < 2 ^ 30" by simp_all
  let ?c = "foldl polymodStep 1 ?pre"
  have c: "0 \<le> ?c" "?c < 2 ^ 30"
    using polymod_fits[OF pre one] by simp_all
  have old: "bech32HrpExpand hrp @ data @ [0, 0, 0, 0, 0, 0] = ?pre @ ?d # ?post"
    using id_take_nth_drop[OF i] by simp
  have new: "bech32HrpExpand hrp @ data[i := x] @ [0, 0, 0, 0, 0, 0] = ?pre @ x # ?post"
    using upd_conv_take_nth_drop[OF i, of x] by simp
  let ?S = "bech32Polymod (bech32HrpExpand hrp @ data @ [0, 0, 0, 0, 0, 0])"
  let ?S' = "bech32Polymod (bech32HrpExpand hrp @ data[i := x] @ [0, 0, 0, 0, 0, 0])"
  have S: "?S = foldl polymodStep (polymodStep ?c ?d) ?post"
    unfolding bech32Polymod_def old by simp
  have S': "?S' = foldl polymodStep (polymodStep ?c x) ?post"
    unfolding bech32Polymod_def new by simp
  have apart: "polymodStep ?c x \<noteq> polymodStep ?c ?d"
    by (rule polymodStep_symbol[OF c x(1,2) d x(3)])
  have ne: "?S' \<noteq> ?S"
    unfolding S S'
    by (rule polymod_keeps_apart[OF post polymodStep_fits(2,3)[OF c x(1,2)]
          polymodStep_fits(2,3)[OF c d] apart])
  have rS: "0 \<le> ?S" "?S < 2 ^ 30"
    unfolding S using polymod_fits[OF post polymodStep_fits(2,3)[OF c d]] by simp_all
  have rS': "0 \<le> ?S'" "?S' < 2 ^ 30"
    unfolding S' using polymod_fits[OF post polymodStep_fits(2,3)[OF c x(1,2)]] by simp_all
  have m: "bxor ?S 1 = ?S XOR 1" "0 \<le> ?S XOR 1" "?S XOR 1 < 2 ^ 30"
    using bxor_fits[OF rS one] xor_range[OF rS one] by simp_all
  have m': "bxor ?S' 1 = ?S' XOR 1" "0 \<le> ?S' XOR 1" "?S' XOR 1 < 2 ^ 30"
    using bxor_fits[OF rS' one] xor_range[OF rS' one] by simp_all
  have "?S' XOR 1 \<noteq> ?S XOR 1"
    using ne xor_cancel_right[of ?S' 1 ?S] by blast
  then have "map (\<lambda>p. band (sar (?S' XOR 1) (5 * (5 - p))) 31) [0, 1, 2, 3, 4, 5]
      \<noteq> map (\<lambda>p. band (sar (?S XOR 1) (5 * (5 - p))) 31) [0, 1, 2, 3, 4, 5]"
    using symbols_determine[OF m'(2,3) m(2,3)] by blast
  then show ?thesis
    unfolding bech32CreateChecksum_def Let_def m(1) m'(1) .
qed

lemma alphabet_injective:
  assumes "0 \<le> d" "d < 32" "0 \<le> d'" "d' < 32"
    and "BECH32_ALPHABET ! nat d = BECH32_ALPHABET ! nat d'"
  shows "d = d'"
proof -
  have "distinct BECH32_ALPHABET" by (simp add: BECH32_ALPHABET_def)
  moreover have "nat d < length BECH32_ALPHABET" "nat d' < length BECH32_ALPHABET"
    using assms by (simp_all add: BECH32_ALPHABET_def)
  ultimately have "nat d = nat d'"
    using assms(5) by (simp add: nth_eq_iff_index_eq)
  with assms show ?thesis by simp
qed

text \<open>
  C8. For every sequence of 5-bit data symbols (so for the 52 symbols of every 32-byte
  payload) and every prefix, flipping one bit of one symbol changes the checksum: the
  six checksum symbols differ, and so do the six checksum characters.
\<close>

theorem checksum_changes_on_bit_flip:
  assumes "\<forall>d \<in> set data. 0 \<le> d \<and> d < 32" "i < length data" "j < 5"
  shows "bech32CreateChecksum hrp (data[i := data ! i XOR 2 ^ j]) \<noteq> bech32CreateChecksum hrp data
    \<and> map (\<lambda>d. BECH32_ALPHABET ! nat d) (bech32CreateChecksum hrp (data[i := data ! i XOR 2 ^ j]))
      \<noteq> map (\<lambda>d. BECH32_ALPHABET ! nat d) (bech32CreateChecksum hrp data)"
proof -
  let ?x = "data ! i XOR 2 ^ j"
  have d: "0 \<le> data ! i" "data ! i < 2 ^ 5" using assms(1,2) by simp_all
  have b: "(0::int) \<le> 2 ^ j" "(2::int) ^ j < 2 ^ 5"
  proof -
    show "(0::int) \<le> 2 ^ j" by simp
    show "(2::int) ^ j < 2 ^ 5" using assms(3) by (intro power_strict_increasing) simp_all
  qed
  have x: "0 \<le> ?x" "?x < 32"
    using xor_range[OF d b] by simp_all
  have "?x \<noteq> data ! i"
  proof
    assume "?x = data ! i"
    then have "data ! i XOR 2 ^ j = data ! i XOR 0" by simp
    then have "(2::int) ^ j = 0" by (rule xor_cancel_left)
    then show False by simp
  qed
  note ne = checksum_symbol_change[OF assms(1,2) x this, of hrp]
  let ?new = "bech32CreateChecksum hrp (data[i := ?x])" and ?old = "bech32CreateChecksum hrp data"
  have "inj_on (\<lambda>d. BECH32_ALPHABET ! nat d) (set ?new \<union> set ?old)"
    using checksum_shape(2) by (intro inj_onI alphabet_injective) auto
  then have "map (\<lambda>d. BECH32_ALPHABET ! nat d) ?new \<noteq> map (\<lambda>d. BECH32_ALPHABET ! nat d) ?old"
    using ne by (simp add: inj_on_map_eq_map)
  with ne show ?thesis by simp
qed

theorem checksum_changes_on_bit_flip_witness:
  "(0::int) \<le> 0 \<and> (0::int) < 32 \<and> (0::nat) < length [0::int, 0] \<and> (0::nat) < 5
   \<and> bech32CreateChecksum ''erd'' ([0, 0][0 := [0, 0] ! 0 XOR 2 ^ 0])
       \<noteq> bech32CreateChecksum ''erd'' [0, 0]
   \<and> bech32CreateChecksum ''erd'' [0, 0] = [30, 21, 10, 7, 19, 23]
   \<and> bech32CreateChecksum ''erd'' [1, 0] = [17, 8, 5, 29, 24, 17]"
proof -
  have h: "\<forall>d \<in> set [0::int, 0]. 0 \<le> d \<and> d < 32" by simp
  have i: "(0::nat) < length [0::int, 0]" by simp
  have j: "(0::nat) < 5" by simp
  have v: "bech32CreateChecksum ''erd'' [0, 0] = [30, 21, 10, 7, 19, 23]"
    "bech32CreateChecksum ''erd'' [1, 0] = [17, 8, 5, 29, 24, 17]"
    by code_simp+
  from checksum_changes_on_bit_flip[OF h i j, of "''erd''"] v i j
  show ?thesis by simp
qed

section \<open>Ranker: bounded, sorted leaderboards\<close>

lemma length_insertSorted: "length (insertSorted cmp x ys) = Suc (length ys)"
  by (induction ys) auto

lemma mset_insertSorted: "mset (insertSorted cmp x ys) = add_mset x (mset ys)"
  by (induction ys) auto

lemma set_insertSorted: "set (insertSorted cmp x ys) = insert x (set ys)"
  by (induction ys) auto

lemma sorted_insertSorted:
  assumes tr: "\<And>a b c. cmp a b \<le> 0 \<Longrightarrow> cmp b c \<le> 0 \<Longrightarrow> cmp a c \<le> 0"
    and tot: "\<And>a b. cmp a b \<le> 0 \<or> cmp b a \<le> 0"
  shows "sorted_wrt (\<lambda>a b. cmp a b \<le> 0) ys \<Longrightarrow> sorted_wrt (\<lambda>a b. cmp a b \<le> 0) (insertSorted cmp x ys)"
proof (induction ys)
  case Nil
  then show ?case by simp
next
  case (Cons y ys)
  show ?case
  proof (cases "cmp x y \<le> 0")
    case True
    with Cons.prems tr show ?thesis by auto
  next
    case False
    with tot have "cmp y x \<le> 0" by blast
    with False Cons show ?thesis by (auto simp: set_insertSorted)
  qed
qed

lemma length_arraySort: "length (arraySort cmp xs) = length xs"
  unfolding arraySort_def by (induction xs) (auto simp: length_insertSorted)

lemma mset_arraySort: "mset (arraySort cmp xs) = mset xs"
  unfolding arraySort_def by (induction xs) (auto simp: mset_insertSorted)

lemma sorted_arraySort:
  assumes tr: "\<And>a b c. cmp a b \<le> 0 \<Longrightarrow> cmp b c \<le> 0 \<Longrightarrow> cmp a c \<le> 0"
    and tot: "\<And>a b. cmp a b \<le> 0 \<or> cmp b a \<le> 0"
  shows "sorted_wrt (\<lambda>a b. cmp a b \<le> 0) (arraySort cmp xs)"
  unfolding arraySort_def
proof (induction xs)
  case Nil
  then show ?case by simp
next
  case (Cons x xs)
  have "sorted_wrt (\<lambda>a b. cmp a b \<le> 0) (insertSorted cmp x (foldr (insertSorted cmp) xs []))"
    by (rule sorted_insertSorted[OF tr tot Cons.IH])
  then show ?case by simp
qed

lemma sorted_byPower: "sorted_wrt (\<lambda>a b. byPower a b \<le> 0) (arraySort byPower xs)"
  by (rule sorted_arraySort) (auto simp: byPower_def)

lemma sorted_byStakeThenPower:
  "sorted_wrt (\<lambda>a b. byStakeThenPower a b \<le> 0) (arraySort byStakeThenPower xs)"
  by (rule sorted_arraySort) (auto simp: byStakeThenPower_def split: if_splits)

lemma byPower_le: "(byPower a b \<le> 0) = (v_power b \<le> v_power a)"
  by (simp add: byPower_def)

lemma byStakeThenPower_le:
  "(byStakeThenPower a b \<le> 0) = (stake b < stake a \<or> (stake a = stake b \<and> v_power b \<le> v_power a))"
  by (auto simp: byStakeThenPower_def)

text \<open>
  C9. For every per-voter map, \<^verbatim>\<open>topPerCategory\<close> returns at most 50 rows, sorted
  non-increasing by the ranking key (power in \<^verbatim>\<open>part_000\<close>; stake, then power, in
  the \<^verbatim>\<open>.jsx\<close> variant), and a map of at most 50 voters is returned whole.
\<close>

theorem topPerCategory_bounded_sorted:
  "length (topPerCategory m) \<le> 50
   \<and> sorted_wrt (\<lambda>a b. v_power b \<le> v_power a) (topPerCategory m)
   \<and> (length m \<le> 50 \<longrightarrow> mset (topPerCategory m) = mset (map toRow m))
   \<and> length (topPerCategoryJsx m) \<le> 50
   \<and> sorted_wrt (\<lambda>a b. stake b < stake a \<or> (stake a = stake b \<and> v_power b \<le> v_power a))
        (topPerCategoryJsx m)
   \<and> (length m \<le> 50 \<longrightarrow> mset (topPerCategoryJsx m) = mset (map toRow m))"
proof -
  have s1: "sorted_wrt (\<lambda>a b. v_power b \<le> v_power a) (topPerCategory m)"
    unfolding topPerCategory_def
    using sorted_wrt_take[OF sorted_byPower, of 50 "map toRow m"] by (simp add: byPower_le)
  have s2: "sorted_wrt (\<lambda>a b. stake b < stake a \<or> (stake a = stake b \<and> v_power b \<le> v_power a))
        (topPerCategoryJsx m)"
    unfolding topPerCategoryJsx_def
    using sorted_wrt_take[OF sorted_byStakeThenPower, of 50 "map toRow m"]
    by (simp add: byStakeThenPower_le)
  have m1: "length m \<le> 50 \<longrightarrow> mset (topPerCategory m) = mset (map toRow m)"
    by (simp add: topPerCategory_def length_arraySort mset_arraySort)
  have m2: "length m \<le> 50 \<longrightarrow> mset (topPerCategoryJsx m) = mset (map toRow m)"
    by (simp add: topPerCategoryJsx_def length_arraySort mset_arraySort)
  show ?thesis using s1 s2 m1 m2
    by (simp add: topPerCategory_def topPerCategoryJsx_def)
qed

theorem topPerCategory_bounded_sorted_witness:
  "length [(Some ''a'', \<lparr> stake = 5, v_power = 1, v_count = 1 \<rparr>),
           (Some ''b'', \<lparr> stake = 1, v_power = 7, v_count = 1 \<rparr>)] \<le> 50
   \<and> mset (topPerCategory [(Some ''a'', \<lparr> stake = 5, v_power = 1, v_count = 1 \<rparr>),
           (Some ''b'', \<lparr> stake = 1, v_power = 7, v_count = 1 \<rparr>)])
     = mset (map toRow [(Some ''a'', \<lparr> stake = 5, v_power = 1, v_count = 1 \<rparr>),
           (Some ''b'', \<lparr> stake = 1, v_power = 7, v_count = 1 \<rparr>)])
   \<and> topPerCategory [(Some ''a'', \<lparr> stake = 5, v_power = 1, v_count = 1 \<rparr>),
           (Some ''b'', \<lparr> stake = 1, v_power = 7, v_count = 1 \<rparr>)]
     = [\<lparr> stake = 1, v_power = 7, v_count = 1, r_address = Some ''b'' \<rparr>,
        \<lparr> stake = 5, v_power = 1, v_count = 1, r_address = Some ''a'' \<rparr>]
   \<and> topPerCategoryJsx [(Some ''a'', \<lparr> stake = 5, v_power = 1, v_count = 1 \<rparr>),
           (Some ''b'', \<lparr> stake = 1, v_power = 7, v_count = 1 \<rparr>)]
     = [\<lparr> stake = 5, v_power = 1, v_count = 1, r_address = Some ''a'' \<rparr>,
        \<lparr> stake = 1, v_power = 7, v_count = 1, r_address = Some ''b'' \<rparr>]"
  using topPerCategory_bounded_sorted
    [of "[(Some ''a'', \<lparr> stake = 5, v_power = 1, v_count = 1 \<rparr>),
          (Some ''b'', \<lparr> stake = 1, v_power = 7, v_count = 1 \<rparr>)]"]
  by (simp add: topPerCategory_def topPerCategoryJsx_def arraySort_def toRow_def byPower_def byStakeThenPower_def)

end
